theory Spec2Isabelle
  imports Complex_Main "HOL-Library.Word" "HOL-Library.Sublist"
begin

unbundle bit_operations_syntax

chapter \<open>The Shumway GFX rendering core: frames, tile cache, batched brush\<close>

text \<open>
  The development embeds two source files: \<^verbatim>\<open>src/gfx/frame.ts\<close> (class \<^verbatim>\<open>Frame\<close>) and the
  WebGL backend (\<^verbatim>\<open>RenderableTileCache\<close>, \<^verbatim>\<open>WebGLCombinedBrush\<close>). JavaScript numbers
  that only ever hold integers are \<open>int\<close> or \<open>nat\<close>; floating point values are \<open>real\<close>
  and no arithmetic of the model depends on rounding: every floating point computation of
  the geometry library (matrix products, logarithms, rectangle containment) is a
  parameter of the function that uses it.
\<close>

section \<open>Faults\<close>

text \<open>
  \<^verbatim>\<open>Shumway.Debug.assert\<close> and \<^verbatim>\<open>Shumway.Debug.unexpected\<close> are imported by both files and
  raise; reading a property of \<^verbatim>\<open>undefined\<close> raises a \<^verbatim>\<open>TypeError\<close>. A raise is the
  \<open>Inl\<close> branch of a sum.
\<close>

datatype fault = AssertionFailed | Unexpected | TypeError

section \<open>Frame\<close>

subsection \<open>Flags, capabilities and the fields of a frame\<close>

text \<open>\<^verbatim>\<open>enum FrameFlags\<close>; JavaScript's \<^verbatim>\<open>|\<close>, \<^verbatim>\<open>&\<close> and \<^verbatim>\<open>~\<close> work on 32 bit integers.\<close>

type_synonym FrameFlags = "32 word"

definition Empty :: FrameFlags where "Empty = 0x0000"
definition Dirty :: FrameFlags where "Dirty = 0x0001"
definition IsMask :: FrameFlags where "IsMask = 0x0002"
definition IgnoreMask :: FrameFlags where "IgnoreMask = 0x0008"
definition IgnoreQuery :: FrameFlags where "IgnoreQuery = 0x0010"
definition InvalidBounds :: FrameFlags where "InvalidBounds = 0x0020"
definition InvalidConcatenatedMatrix :: FrameFlags where "InvalidConcatenatedMatrix = 0x0040"
definition InvalidInvertedConcatenatedMatrix :: FrameFlags where
  "InvalidInvertedConcatenatedMatrix = 0x0080"
definition InvalidConcatenatedColorMatrix :: FrameFlags where
  "InvalidConcatenatedColorMatrix = 0x0100"
definition InvalidPaint :: FrameFlags where "InvalidPaint = 0x0200"
definition EnterClip :: FrameFlags where "EnterClip = 0x1000"
definition LeaveClip :: FrameFlags where "LeaveClip = 0x2000"
definition Visible :: FrameFlags where "Visible = 0x4000"
definition Transparent :: FrameFlags where "Transparent = 0x8000"

text \<open>\<^verbatim>\<open>enum FrameCapabilityFlags\<close>.\<close>

type_synonym FrameCapabilityFlags = "32 word"

definition AllowMatrixWrite :: FrameCapabilityFlags where "AllowMatrixWrite = 1"
definition AllowColorMatrixWrite :: FrameCapabilityFlags where "AllowColorMatrixWrite = 2"
definition AllowBlendModeWrite :: FrameCapabilityFlags where "AllowBlendModeWrite = 4"
definition AllowFiltersWrite :: FrameCapabilityFlags where "AllowFiltersWrite = 8"
definition AllowMaskWrite :: FrameCapabilityFlags where "AllowMaskWrite = 16"
definition AllowChildrenWrite :: FrameCapabilityFlags where "AllowChildrenWrite = 32"
definition AllowClipWrite :: FrameCapabilityFlags where "AllowClipWrite = 64"
definition AllowAllWrite :: FrameCapabilityFlags where
  "AllowAllWrite = AllowMatrixWrite OR AllowColorMatrixWrite OR AllowBlendModeWrite
     OR AllowFiltersWrite OR AllowMaskWrite OR AllowChildrenWrite OR AllowClipWrite"

datatype PixelSnapping = PixelSnapping_Never | PixelSnapping_Always | PixelSnapping_Auto

datatype Smoothing = Smoothing_Never | Smoothing_Always

text \<open>
  \<^verbatim>\<open>Geometry.Matrix\<close> (not under src/) is an affine matrix with the six number fields
  \<^verbatim>\<open>a, b, c, d, tx, ty\<close>; \<^verbatim>\<open>set\<close> and \<^verbatim>\<open>clone\<close> copy them. Its product \<^verbatim>\<open>preMultiply\<close> is a
  parameter \<open>pm\<close> of the functions below: \<open>pm m other\<close> is the value of \<open>m\<close> after
  \<^verbatim>\<open>m.preMultiply(other)\<close>.
\<close>

record Matrix =
  m_a :: real
  m_b :: real
  m_c :: real
  m_d :: real
  m_tx :: real
  m_ty :: real

definition createIdentity :: Matrix where
  "createIdentity = \<lparr>m_a = 1, m_b = 0, m_c = 0, m_d = 1, m_tx = 0, m_ty = 0\<rparr>"

text \<open>
  A reference to a frame of a tree is the list of child indices that leads to it, the
  index in its own parent first: the parent of \<open>i # up\<close> is \<open>up\<close>, and \<open>[]\<close> is the root, whose
  \<^verbatim>\<open>_parent\<close> is null.
\<close>

type_synonym FrameRef = "nat list"

text \<open>
  The private fields of class \<^verbatim>\<open>Frame\<close>, named as in the source without the underscore
  (\<open>mask_frame\<close> for \<^verbatim>\<open>_mask\<close>, \<open>frameId\<close> for \<^verbatim>\<open>_id\<close>). \<^verbatim>\<open>_parent\<close> is the position in the tree.
  \<open>'c\<close> is \<^verbatim>\<open>ColorMatrix\<close> (not under src/); filters and the rendered bounding box are
  opaque values.
\<close>

record 'c Frame =
  frameId :: nat
  blendMode :: int
  matrix :: Matrix
  concatenatedMatrix :: Matrix
  invertedConcatenatedMatrix :: "Matrix option"
  filters :: "nat list"
  colorMatrix :: 'c
  concatenatedColorMatrix :: 'c
  mask_frame :: "FrameRef option"
  clip :: int
  previouslyRenderedAABB :: "(real \<times> real \<times> real \<times> real) option"
  flags :: FrameFlags
  smoothing :: Smoothing
  pixelSnapping :: PixelSnapping
  capability :: FrameCapabilityFlags

text \<open>
  The constructor. \<open>nextID\<close> is the static counter \<^verbatim>\<open>Frame._nextID\<close>, \<open>normal\<close> is
  \<^verbatim>\<open>BlendMode.Normal\<close> and \<open>identityColor\<close> is \<^verbatim>\<open>ColorMatrix.createIdentity()\<close>.
\<close>

definition newFrame :: "nat \<Rightarrow> int \<Rightarrow> 'c \<Rightarrow> 'c Frame" where
  "newFrame nextID normal identityColor =
     \<lparr>frameId = nextID, blendMode = normal, matrix = createIdentity,
      concatenatedMatrix = createIdentity, invertedConcatenatedMatrix = None, filters = [],
      colorMatrix = identityColor, concatenatedColorMatrix = identityColor, mask_frame = None,
      clip = - 1, previouslyRenderedAABB = None,
      flags = Visible OR InvalidPaint OR InvalidBounds OR InvalidConcatenatedMatrix
                OR InvalidInvertedConcatenatedMatrix OR InvalidConcatenatedColorMatrix,
      smoothing = Smoothing_Never, pixelSnapping = PixelSnapping_Never,
      capability = AllowAllWrite\<rparr>"

definition setFlags :: "'c Frame \<Rightarrow> FrameFlags \<Rightarrow> 'c Frame" where
  "setFlags fr fl = fr\<lparr>flags := flags fr OR fl\<rparr>"

definition removeFlags :: "'c Frame \<Rightarrow> FrameFlags \<Rightarrow> 'c Frame" where
  "removeFlags fr fl = fr\<lparr>flags := flags fr AND NOT fl\<rparr>"

definition hasFlags :: "'c Frame \<Rightarrow> FrameFlags \<Rightarrow> bool" where
  "hasFlags fr fl \<longleftrightarrow> flags fr AND fl = fl"

definition toggleFlags :: "'c Frame \<Rightarrow> FrameFlags \<Rightarrow> bool \<Rightarrow> 'c Frame" where
  "toggleFlags fr fl on = (if on then fr\<lparr>flags := flags fr OR fl\<rparr> else fr\<lparr>flags := flags fr AND NOT fl\<rparr>)"

definition hasAnyFlags :: "'c Frame \<Rightarrow> FrameFlags \<Rightarrow> bool" where
  "hasAnyFlags fr fl \<longleftrightarrow> flags fr AND fl \<noteq> 0"

text \<open>\<^verbatim>\<open>checkCapability\<close>: \<^verbatim>\<open>unexpected\<close> raises.\<close>

definition checkCapability :: "'c Frame \<Rightarrow> FrameCapabilityFlags \<Rightarrow> fault + unit" where
  "checkCapability fr cap = (if capability fr AND cap = 0 then Inl Unexpected else Inr ())"

definition invalidate :: "'c Frame \<Rightarrow> 'c Frame" where
  "invalidate fr = setFlags fr Dirty"

subsection \<open>The frame tree\<close>

text \<open>
  A frame is a plain \<^verbatim>\<open>Frame\<close> or a \<^verbatim>\<open>FrameContainer\<close> with its \<^verbatim>\<open>children\<close>. Class
  \<^verbatim>\<open>FrameContainer\<close> is not under src/; \<^verbatim>\<open>Frame.visit\<close> reads its \<^verbatim>\<open>children\<close> array and tests
  \<^verbatim>\<open>frame instanceof FrameContainer\<close>. A tree has each frame in the \<^verbatim>\<open>children\<close> of its
  \<^verbatim>\<open>_parent\<close> and no frame among its own ancestors.
\<close>

datatype 'c FrameTree = PlainFrame "'c Frame" | FrameContainer "'c Frame" "'c FrameTree list"

fun frameOf :: "'c FrameTree \<Rightarrow> 'c Frame" where
  "frameOf (PlainFrame fr) = fr"
| "frameOf (FrameContainer fr cs) = fr"

fun children :: "'c FrameTree \<Rightarrow> 'c FrameTree list" where
  "children (PlainFrame fr) = []"
| "children (FrameContainer fr cs) = cs"

fun isContainer :: "'c FrameTree \<Rightarrow> bool" where
  "isContainer (PlainFrame fr) = False"
| "isContainer (FrameContainer fr cs) = True"

fun withFrame :: "('c Frame \<Rightarrow> 'c Frame) \<Rightarrow> 'c FrameTree \<Rightarrow> 'c FrameTree" where
  "withFrame g (PlainFrame fr) = PlainFrame (g fr)"
| "withFrame g (FrameContainer fr cs) = FrameContainer (g fr) cs"

text \<open>Following child indices from the root, and replacing the subtree they lead to.\<close>

fun subtreePath :: "'c FrameTree \<Rightarrow> nat list \<Rightarrow> 'c FrameTree option" where
  "subtreePath t [] = Some t"
| "subtreePath (FrameContainer fr cs) (i # p) =
     (if i < length cs then subtreePath (cs ! i) p else None)"
| "subtreePath (PlainFrame fr) (i # p) = None"

fun modifyPath :: "('c FrameTree \<Rightarrow> 'c FrameTree) \<Rightarrow> nat list \<Rightarrow> 'c FrameTree \<Rightarrow> 'c FrameTree" where
  "modifyPath h [] t = h t"
| "modifyPath h (i # p) (FrameContainer fr cs) =
     (if i < length cs then FrameContainer fr (cs[i := modifyPath h p (cs ! i)])
      else FrameContainer fr cs)"
| "modifyPath h (i # p) (PlainFrame fr) = PlainFrame fr"

definition subtreeAt :: "'c FrameTree \<Rightarrow> FrameRef \<Rightarrow> 'c FrameTree option" where
  "subtreeAt t r = subtreePath t (rev r)"

definition validRef :: "'c FrameTree \<Rightarrow> FrameRef \<Rightarrow> bool" where
  "validRef t r \<longleftrightarrow> subtreeAt t r \<noteq> None"

text \<open>
  The object a reference points to. A reference held by the program always points to a
  frame; \<open>frameAt\<close> is only used on valid references.
\<close>

definition nodeAt :: "'c FrameTree \<Rightarrow> FrameRef \<Rightarrow> 'c FrameTree" where
  "nodeAt t r = the (subtreeAt t r)"

definition frameAt :: "'c FrameTree \<Rightarrow> FrameRef \<Rightarrow> 'c Frame" where
  "frameAt t r = frameOf (nodeAt t r)"

text \<open>Assigning to fields of the frame \<open>r\<close>.\<close>

definition updateFrameAt :: "('c Frame \<Rightarrow> 'c Frame) \<Rightarrow> FrameRef \<Rightarrow> 'c FrameTree \<Rightarrow> 'c FrameTree" where
  "updateFrameAt g r t = modifyPath (withFrame g) (rev r) t"

text \<open>All references of a tree, each frame before its descendants.\<close>

fun refsBelow :: "FrameRef \<Rightarrow> 'c FrameTree \<Rightarrow> FrameRef list"
  and refsOfChildren :: "FrameRef \<Rightarrow> nat \<Rightarrow> 'c FrameTree list \<Rightarrow> FrameRef list" where
  "refsBelow r (PlainFrame fr) = [r]"
| "refsBelow r (FrameContainer fr cs) = r # refsOfChildren r 0 cs"
| "refsOfChildren r i [] = []"
| "refsOfChildren r i (c # cs) = refsBelow (i # r) c @ refsOfChildren r (Suc i) cs"

definition allRefs :: "'c FrameTree \<Rightarrow> FrameRef list" where
  "allRefs t = refsBelow [] t"

subsection \<open>Flag propagation\<close>

text \<open>
  \<^verbatim>\<open>_propagateFlagsUp\<close>: stops at the first frame that has all the flags, else sets them and
  goes on with the parent.
\<close>

fun propagateFlagsUp :: "FrameFlags \<Rightarrow> FrameRef \<Rightarrow> 'c FrameTree \<Rightarrow> 'c FrameTree" where
  "propagateFlagsUp fl [] t =
     (if hasFlags (frameAt t []) fl then t else updateFrameAt (\<lambda>fr. setFlags fr fl) [] t)"
| "propagateFlagsUp fl (i # up) t =
     (if hasFlags (frameAt t (i # up)) fl then t
      else propagateFlagsUp fl up (updateFrameAt (\<lambda>fr. setFlags fr fl) (i # up) t))"

text \<open>
  Modelled from the spec: the override \<^verbatim>\<open>FrameContainer._propagateFlagsDown\<close> is not under
  src/; the spec says that a change "propagates ... downward to every descendant (a
  container type must override to recurse over children; non-container nodes apply the
  flags to themselves only)". The first equation is \<^verbatim>\<open>Frame._propagateFlagsDown\<close> of the
  source, the second the override.
\<close>

fun propagateFlagsDownFrom :: "FrameFlags \<Rightarrow> 'c FrameTree \<Rightarrow> 'c FrameTree" where
  "propagateFlagsDownFrom fl (PlainFrame fr) = PlainFrame (setFlags fr fl)"
| "propagateFlagsDownFrom fl (FrameContainer fr cs) =
     FrameContainer (setFlags fr fl) (map (propagateFlagsDownFrom fl) cs)"

definition propagateFlagsDown :: "FrameFlags \<Rightarrow> FrameRef \<Rightarrow> 'c FrameTree \<Rightarrow> 'c FrameTree" where
  "propagateFlagsDown fl r t = modifyPath (propagateFlagsDownFrom fl) (rev r) t"

definition invalidateBounds :: "FrameRef \<Rightarrow> 'c FrameTree \<Rightarrow> 'c FrameTree" where
  "invalidateBounds r t = propagateFlagsUp InvalidBounds r t"

definition invalidatePaint :: "FrameRef \<Rightarrow> 'c FrameTree \<Rightarrow> 'c FrameTree" where
  "invalidatePaint r t = propagateFlagsUp InvalidPaint r t"

definition invalidateParentPaint :: "FrameRef \<Rightarrow> 'c FrameTree \<Rightarrow> 'c FrameTree" where
  "invalidateParentPaint r t =
     (case r of [] \<Rightarrow> t | i # up \<Rightarrow> propagateFlagsUp InvalidPaint up t)"

definition invalidatePosition :: "FrameRef \<Rightarrow> 'c FrameTree \<Rightarrow> 'c FrameTree" where
  "invalidatePosition r t =
     (let t1 = propagateFlagsDown
                 (InvalidConcatenatedMatrix OR InvalidInvertedConcatenatedMatrix) r t;
          t2 = (case r of [] \<Rightarrow> t1 | i # up \<Rightarrow> invalidateBounds up t1)
      in invalidateParentPaint r t2)"

subsection \<open>Setters\<close>

text \<open>
  A setter returns the fault it raises, if any, and the tree as the call leaves it: what a
  setter has assigned before it raises stays assigned.
\<close>

definition set_x :: "FrameRef \<Rightarrow> real \<Rightarrow> 'c FrameTree \<Rightarrow> fault option \<times> 'c FrameTree" where
  "set_x r v t =
     (case checkCapability (frameAt t r) AllowMatrixWrite of
        Inl e \<Rightarrow> (Some e, t)
      | Inr u \<Rightarrow>
          (None, invalidatePosition r
                   (updateFrameAt (\<lambda>fr. fr\<lparr>matrix := (matrix fr)\<lparr>m_tx := v\<rparr>\<rparr>) r t)))"

definition set_y :: "FrameRef \<Rightarrow> real \<Rightarrow> 'c FrameTree \<Rightarrow> fault option \<times> 'c FrameTree" where
  "set_y r v t =
     (case checkCapability (frameAt t r) AllowMatrixWrite of
        Inl e \<Rightarrow> (Some e, t)
      | Inr u \<Rightarrow>
          (None, invalidatePosition r
                   (updateFrameAt (\<lambda>fr. fr\<lparr>matrix := (matrix fr)\<lparr>m_ty := v\<rparr>\<rparr>) r t)))"

definition set_matrix :: "FrameRef \<Rightarrow> Matrix \<Rightarrow> 'c FrameTree \<Rightarrow> fault option \<times> 'c FrameTree" where
  "set_matrix r v t =
     (case checkCapability (frameAt t r) AllowMatrixWrite of
        Inl e \<Rightarrow> (Some e, t)
      | Inr u \<Rightarrow> (None, invalidatePosition r (updateFrameAt (\<lambda>fr. fr\<lparr>matrix := v\<rparr>) r t)))"

text \<open>
  \<^verbatim>\<open>value | 0\<close> in the \<^verbatim>\<open>blendMode\<close> setter: JavaScript's \<^verbatim>\<open>ToInt32\<close> of an integer, its value
  modulo \<open>2 ^ 32\<close> read as a signed 32 bit integer.
\<close>

definition toInt32 :: "int \<Rightarrow> int" where
  "toInt32 v = sint (word_of_int v :: 32 word)"

definition set_blendMode :: "FrameRef \<Rightarrow> int \<Rightarrow> 'c FrameTree \<Rightarrow> fault option \<times> 'c FrameTree" where
  "set_blendMode r v t =
     (let v' = toInt32 v in
      case checkCapability (frameAt t r) AllowBlendModeWrite of
        Inl e \<Rightarrow> (Some e, t)
      | Inr u \<Rightarrow> (None, invalidateParentPaint r (updateFrameAt (\<lambda>fr. fr\<lparr>blendMode := v'\<rparr>) r t)))"

definition set_filters :: "FrameRef \<Rightarrow> nat list \<Rightarrow> 'c FrameTree \<Rightarrow> fault option \<times> 'c FrameTree" where
  "set_filters r v t =
     (case checkCapability (frameAt t r) AllowFiltersWrite of
        Inl e \<Rightarrow> (Some e, t)
      | Inr u \<Rightarrow> (None, invalidateParentPaint r (updateFrameAt (\<lambda>fr. fr\<lparr>filters := v\<rparr>) r t)))"

definition set_colorMatrix :: "FrameRef \<Rightarrow> 'c \<Rightarrow> 'c FrameTree \<Rightarrow> fault option \<times> 'c FrameTree" where
  "set_colorMatrix r v t =
     (case checkCapability (frameAt t r) AllowColorMatrixWrite of
        Inl e \<Rightarrow> (Some e, t)
      | Inr u \<Rightarrow>
          (None, invalidateParentPaint r
                   (propagateFlagsDown InvalidConcatenatedColorMatrix r
                      (updateFrameAt (\<lambda>fr. fr\<lparr>colorMatrix := v\<rparr>) r t))))"

text \<open>The \<^verbatim>\<open>mask\<close> setter, for a mask that is null or a frame of the same tree.\<close>

definition set_mask :: "FrameRef \<Rightarrow> FrameRef option \<Rightarrow> 'c FrameTree \<Rightarrow> fault option \<times> 'c FrameTree" where
  "set_mask r v t =
     (case checkCapability (frameAt t r) AllowMaskWrite of
        Inl e \<Rightarrow> (Some e, t)
      | Inr u \<Rightarrow>
          (let t1 = (case mask_frame (frameAt t r) of
                       None \<Rightarrow> t
                     | Some old \<Rightarrow>
                         if Some old \<noteq> v then updateFrameAt (\<lambda>fr. removeFlags fr IsMask) old t
                         else t);
               t2 = updateFrameAt (\<lambda>fr. fr\<lparr>mask_frame := v\<rparr>) r t1;
               t3 = (case v of
                       None \<Rightarrow> t2
                     | Some new \<Rightarrow> updateFrameAt (\<lambda>fr. invalidate (setFlags fr IsMask)) new t2)
           in (None, updateFrameAt invalidate r t3)))"

definition set_clip :: "FrameRef \<Rightarrow> int \<Rightarrow> 'c FrameTree \<Rightarrow> fault option \<times> 'c FrameTree" where
  "set_clip r v t =
     (case checkCapability (frameAt t r) AllowClipWrite of
        Inl e \<Rightarrow> (Some e, t)
      | Inr u \<Rightarrow> (None, updateFrameAt (\<lambda>fr. fr\<lparr>clip := v\<rparr>) r t))"

definition set_smoothing :: "FrameRef \<Rightarrow> Smoothing \<Rightarrow> 'c FrameTree \<Rightarrow> fault option \<times> 'c FrameTree" where
  "set_smoothing r v t = (None, updateFrameAt (\<lambda>fr. invalidate (fr\<lparr>smoothing := v\<rparr>)) r t)"

definition set_pixelSnapping ::
  "FrameRef \<Rightarrow> PixelSnapping \<Rightarrow> 'c FrameTree \<Rightarrow> fault option \<times> 'c FrameTree" where
  "set_pixelSnapping r v t = (None, updateFrameAt (\<lambda>fr. invalidate (fr\<lparr>pixelSnapping := v\<rparr>)) r t)"

definition set_previouslyRenderedAABB ::
  "FrameRef \<Rightarrow> (real \<times> real \<times> real \<times> real) option \<Rightarrow> 'c FrameTree \<Rightarrow> fault option \<times> 'c FrameTree" where
  "set_previouslyRenderedAABB r v t =
     (None, updateFrameAt (\<lambda>fr. fr\<lparr>previouslyRenderedAABB := v\<rparr>) r t)"

subsection \<open>The concatenated matrix\<close>

text \<open>
  \<^verbatim>\<open>_findClosestAncestor\<close> and \<^verbatim>\<open>_getAncestors\<close> walk the \<^verbatim>\<open>_parent\<close> chain. Their assertion
  \<^verbatim>\<open>node !== node._parent\<close> cannot fail in a tree. The other assertions of this subsection
  are made unless \<^verbatim>\<open>release\<close> is set.
\<close>

fun findClosestAncestor :: "'c FrameTree \<Rightarrow> FrameFlags \<Rightarrow> bool \<Rightarrow> FrameRef \<Rightarrow> FrameRef option" where
  "findClosestAncestor t fl on [] =
     (if hasFlags (frameAt t []) fl = on then Some [] else None)"
| "findClosestAncestor t fl on (i # up) =
     (if hasFlags (frameAt t (i # up)) fl = on then Some (i # up)
      else findClosestAncestor t fl on up)"

text \<open>The loop of \<^verbatim>\<open>_getAncestors\<close> from a frame: the path and the node it ends at.\<close>

fun ancestorsUpTo :: "FrameRef \<Rightarrow> FrameRef option \<Rightarrow> FrameRef list \<times> FrameRef option" where
  "ancestorsUpTo [] lastNode = (if Some [] = lastNode then ([], Some []) else ([[]], None))"
| "ancestorsUpTo (i # up) lastNode =
     (if Some (i # up) = lastNode then ([], Some (i # up))
      else (let (path, node) = ancestorsUpTo up lastNode in ((i # up) # path, node)))"

definition getAncestors :: "bool \<Rightarrow> FrameRef option \<Rightarrow> FrameRef option \<Rightarrow> fault + FrameRef list" where
  "getAncestors release node lastNode =
     (let (path, final) = (case node of None \<Rightarrow> ([], None) | Some r \<Rightarrow> ancestorsUpTo r lastNode)
      in if \<not> release \<and> final \<noteq> lastNode then Inl AssertionFailed else Inr path)"

text \<open>
  The \<^verbatim>\<open>for\<close> loop of \<^verbatim>\<open>getConcatenatedMatrix\<close>, over the frames in the order it takes them
  (the path reversed); it returns the matrix \<^verbatim>\<open>m\<close> and the tree.
\<close>

fun concatenate ::
  "bool \<Rightarrow> (Matrix \<Rightarrow> Matrix \<Rightarrow> Matrix) \<Rightarrow> FrameRef list \<Rightarrow> Matrix \<Rightarrow> 'c FrameTree
     \<Rightarrow> fault + (Matrix \<times> 'c FrameTree)" where
  "concatenate release pm [] m t = Inr (m, t)"
| "concatenate release pm (ancestor # path) m t =
     (if \<not> release \<and> \<not> hasFlags (frameAt t ancestor) InvalidConcatenatedMatrix
      then Inl AssertionFailed
      else (let m' = pm m (matrix (frameAt t ancestor))
            in concatenate release pm path m'
                 (updateFrameAt
                    (\<lambda>fr. removeFlags (fr\<lparr>concatenatedMatrix := m'\<rparr>) InvalidConcatenatedMatrix)
                    ancestor t)))"

definition getConcatenatedMatrix ::
  "bool \<Rightarrow> (Matrix \<Rightarrow> Matrix \<Rightarrow> Matrix) \<Rightarrow> FrameRef \<Rightarrow> 'c FrameTree \<Rightarrow> fault + (Matrix \<times> 'c FrameTree)" where
  "getConcatenatedMatrix release pm r t =
     (if hasFlags (frameAt t r) InvalidConcatenatedMatrix then
        (let ancestor = findClosestAncestor t InvalidConcatenatedMatrix False r
         in case getAncestors release (Some r) ancestor of
              Inl e \<Rightarrow> Inl e
            | Inr path \<Rightarrow>
                (let m = (case ancestor of
                            Some a \<Rightarrow> concatenatedMatrix (frameAt t a)
                          | None \<Rightarrow> createIdentity)
                 in case concatenate release pm (rev path) m t of
                      Inl e \<Rightarrow> Inl e
                    | Inr (m', t') \<Rightarrow> Inr (concatenatedMatrix (frameAt t' r), t')))
      else Inr (concatenatedMatrix (frameAt t r), t))"

text \<open>
  The composition of the local matrices from the root down to the frame \<open>r\<close>: each local
  matrix is pre-multiplied into the matrix accumulated for the parent, starting from the
  identity.
\<close>

fun concatenation :: "(Matrix \<Rightarrow> Matrix \<Rightarrow> Matrix) \<Rightarrow> 'c FrameTree \<Rightarrow> FrameRef \<Rightarrow> Matrix" where
  "concatenation pm t [] = pm createIdentity (matrix (frameAt t []))"
| "concatenation pm t (i # up) = pm (concatenation pm t up) (matrix (frameAt t (i # up)))"

text \<open>
  The cache of the frame \<open>r\<close> is in order: its \<^verbatim>\<open>InvalidConcatenatedMatrix\<close> flag is set, or
  its cached matrix is the composition and the flag is clear on every strict ancestor
  (the references \<open>drop k r\<close> for \<open>k = 1, ..., length r\<close>).
\<close>

definition validCache :: "(Matrix \<Rightarrow> Matrix \<Rightarrow> Matrix) \<Rightarrow> 'c FrameTree \<Rightarrow> FrameRef \<Rightarrow> bool" where
  "validCache pm t r \<longleftrightarrow>
     hasFlags (frameAt t r) InvalidConcatenatedMatrix
     \<or> (concatenatedMatrix (frameAt t r) = concatenation pm t r
        \<and> list_all (\<lambda>k. \<not> hasFlags (frameAt t (drop k r)) InvalidConcatenatedMatrix)
             [1..<Suc (length r)])"

definition cacheInvariant :: "(Matrix \<Rightarrow> Matrix \<Rightarrow> Matrix) \<Rightarrow> 'c FrameTree \<Rightarrow> bool" where
  "cacheInvariant pm t \<longleftrightarrow> list_all (validCache pm t) (allRefs t)"

text \<open>The frame \<open>q\<close> once \<^verbatim>\<open>getConcatenatedMatrix\<close> has recomputed its cache: the composition is
  stored and the flag removed.\<close>

definition revalidated :: "(Matrix \<Rightarrow> Matrix \<Rightarrow> Matrix) \<Rightarrow> 'c FrameTree \<Rightarrow> FrameRef \<Rightarrow> 'c Frame" where
  "revalidated pm t q =
     removeFlags ((frameAt t q)\<lparr>concatenatedMatrix := concatenation pm t q\<rparr>) InvalidConcatenatedMatrix"

text \<open>Sequences of the operations on the local transform, and queries.\<close>

datatype frameOp =
  SetX FrameRef real | SetY FrameRef real | SetMatrix FrameRef Matrix
  | GetConcatenatedMatrix FrameRef

fun target :: "frameOp \<Rightarrow> FrameRef" where
  "target (SetX r v) = r"
| "target (SetY r v) = r"
| "target (SetMatrix r v) = r"
| "target (GetConcatenatedMatrix r) = r"

fun isQuery :: "frameOp \<Rightarrow> bool" where
  "isQuery (GetConcatenatedMatrix r) = True"
| "isQuery fop = False"

text \<open>The result of a call in a sequence: the fault, which ends the sequence, or the tree.\<close>

definition outcome :: "fault option \<times> 'c FrameTree \<Rightarrow> fault + 'c FrameTree" where
  "outcome res = (case fst res of Some e \<Rightarrow> Inl e | None \<Rightarrow> Inr (snd res))"

fun perform :: "bool \<Rightarrow> (Matrix \<Rightarrow> Matrix \<Rightarrow> Matrix) \<Rightarrow> frameOp \<Rightarrow> 'c FrameTree \<Rightarrow> fault + 'c FrameTree" where
  "perform release pm (SetX r v) t = outcome (set_x r v t)"
| "perform release pm (SetY r v) t = outcome (set_y r v t)"
| "perform release pm (SetMatrix r v) t = outcome (set_matrix r v t)"
| "perform release pm (GetConcatenatedMatrix r) t =
     (case getConcatenatedMatrix release pm r t of Inl e \<Rightarrow> Inl e | Inr (m, t') \<Rightarrow> Inr t')"

fun performAll :: "bool \<Rightarrow> (Matrix \<Rightarrow> Matrix \<Rightarrow> Matrix) \<Rightarrow> frameOp list \<Rightarrow> 'c FrameTree \<Rightarrow> fault + 'c FrameTree" where
  "performAll release pm [] t = Inr t"
| "performAll release pm (fop # ops) t =
     (case perform release pm fop t of Inl e \<Rightarrow> Inl e | Inr t' \<Rightarrow> performAll release pm ops t')"

subsection \<open>Traversal\<close>

text \<open>
  \<^verbatim>\<open>enum VisitorFlags\<close> is not under src/. What a visitor returns is one of \<^verbatim>\<open>Continue\<close>, \<^verbatim>\<open>Stop\<close>
  and \<^verbatim>\<open>Skip\<close>; the bits \<^verbatim>\<open>FrontToBack\<close> and \<^verbatim>\<open>Clips\<close> of the argument \<^verbatim>\<open>visitorFlags\<close> are the
  arguments \<open>frontToBack\<close> and \<open>clips\<close> below.
\<close>

datatype VisitorResult = Continue | Stop | Skip

text \<open>
  An entry of the three stacks \<^verbatim>\<open>frameStack\<close>, \<^verbatim>\<open>transformStack\<close> and \<^verbatim>\<open>flagsStack\<close>, which are
  pushed and popped together; the transform is \<open>None\<close> when \<^verbatim>\<open>calculateTransform\<close> is false.
  The head of the list is the top of the stack.
\<close>

type_synonym StackEntry = "FrameRef \<times> Matrix option \<times> FrameFlags"

text \<open>\<^verbatim>\<open>var t = transform.clone(); t.preMultiply(frame.matrix)\<close>, when transforms are calculated.\<close>

definition childTransform ::
  "(Matrix \<Rightarrow> Matrix \<Rightarrow> Matrix) \<Rightarrow> 'c FrameTree \<Rightarrow> Matrix option \<Rightarrow> FrameRef \<Rightarrow> Matrix option" where
  "childTransform pm t transform frame = map_option (\<lambda>m. pm m (matrix (frameAt t frame))) transform"

text \<open>The loop \<^verbatim>\<open>while (leaveClip[i].length)\<close>: the events are shifted from the front and pushed.\<close>

fun pushLeaveClip ::
  "(Matrix \<Rightarrow> Matrix \<Rightarrow> Matrix) \<Rightarrow> 'c FrameTree \<Rightarrow> Matrix option \<Rightarrow> FrameRef list
     \<Rightarrow> StackEntry list \<Rightarrow> StackEntry list" where
  "pushLeaveClip pm t transform [] stack = stack"
| "pushLeaveClip pm t transform (clipFrame # events) stack =
     pushLeaveClip pm t transform events
       ((clipFrame, childTransform pm t transform clipFrame, LeaveClip) # stack)"

text \<open>
  The loop \<^verbatim>\<open>for (var i = length - 1; i >= 0; i--)\<close> of the branch with clips. The child \<open>i\<close> of
  the container \<open>frame\<close> is the reference \<open>i # frame\<close>; \<open>leaveClip\<close> is the array that
  \<^verbatim>\<open>gatherLeaveClipEvents\<close> returned, an index without events giving the empty list.
\<close>

definition pushClippedChildren ::
  "(Matrix \<Rightarrow> Matrix \<Rightarrow> Matrix) \<Rightarrow> 'c FrameTree \<Rightarrow> (nat \<Rightarrow> FrameRef list) \<Rightarrow> FrameRef
     \<Rightarrow> Matrix option \<Rightarrow> FrameFlags \<Rightarrow> StackEntry list \<Rightarrow> StackEntry list" where
  "pushClippedChildren pm t leaveClip frame transform fl stack =
     fold (\<lambda>i st.
             (i # frame, childTransform pm t transform (i # frame),
              if clip (frameAt t (i # frame)) \<ge> 0 then fl OR EnterClip else fl)
             # pushLeaveClip pm t transform (leaveClip i) st)
          (rev [0..<length (children (nodeAt t frame))]) stack"

text \<open>The loop \<^verbatim>\<open>for (var i = 0; i < length; i++)\<close> of the branch without clips.\<close>

definition pushChildren ::
  "(Matrix \<Rightarrow> Matrix \<Rightarrow> Matrix) \<Rightarrow> 'c FrameTree \<Rightarrow> bool \<Rightarrow> FrameRef
     \<Rightarrow> Matrix option \<Rightarrow> FrameFlags \<Rightarrow> StackEntry list \<Rightarrow> StackEntry list" where
  "pushChildren pm t frontToBack frame transform fl stack =
     (let n = length (children (nodeAt t frame)) in
      fold (\<lambda>i st.
              (let child = (if frontToBack then i else n - 1 - i) # frame
               in (child, childTransform pm t transform child, fl) # st))
           [0..<n] stack)"

text \<open>
  The \<^verbatim>\<open>while (frameStack.length > 0)\<close> loop of \<^verbatim>\<open>visit\<close>. The visitor is a function of the frame,
  the transform, the flags and its own state \<open>'s\<close>. \<open>clips\<close> is \<open>None\<close> when the bit
  \<^verbatim>\<open>VisitorFlags.Clips\<close> is clear or \<^verbatim>\<open>disableClipping.value\<close> is set, and else the method
  \<^verbatim>\<open>gatherLeaveClipEvents\<close> (of \<^verbatim>\<open>FrameContainer\<close>, not under src/) as a function of the container.
  The result is \<open>None\<close> when the loop does not end.
\<close>

partial_function (option) visitLoop ::
  "(Matrix \<Rightarrow> Matrix \<Rightarrow> Matrix) \<Rightarrow> (FrameRef \<Rightarrow> Matrix option \<Rightarrow> FrameFlags \<Rightarrow> 's \<Rightarrow> VisitorResult \<times> 's)
     \<Rightarrow> bool \<Rightarrow> (FrameRef \<Rightarrow> nat \<Rightarrow> FrameRef list) option \<Rightarrow> 'c FrameTree
     \<Rightarrow> StackEntry list \<Rightarrow> 's \<Rightarrow> 's option" where
  "visitLoop pm visitor frontToBack clips t stack s =
     (case stack of
        [] \<Rightarrow> Some s
      | (frame, transform, fl0) # rest \<Rightarrow>
          (let fl = fl0 OR flags (frameAt t frame) in
           case visitor frame transform fl s of
             (Continue, s') \<Rightarrow>
               if isContainer (nodeAt t frame)
               then visitLoop pm visitor frontToBack clips t
                      (case clips of
                         Some gatherLeaveClipEvents \<Rightarrow>
                           pushClippedChildren pm t (gatherLeaveClipEvents frame) frame transform fl rest
                       | None \<Rightarrow> pushChildren pm t frontToBack frame transform fl rest)
                      s'
               else visitLoop pm visitor frontToBack clips t rest s'
           | (Stop, s') \<Rightarrow> Some s'
           | (Skip, s') \<Rightarrow> visitLoop pm visitor frontToBack clips t rest s'))"

definition visit ::
  "(Matrix \<Rightarrow> Matrix \<Rightarrow> Matrix) \<Rightarrow> (FrameRef \<Rightarrow> Matrix option \<Rightarrow> FrameFlags \<Rightarrow> 's \<Rightarrow> VisitorResult \<times> 's)
     \<Rightarrow> Matrix option \<Rightarrow> FrameFlags \<Rightarrow> bool \<Rightarrow> (FrameRef \<Rightarrow> nat \<Rightarrow> FrameRef list) option
     \<Rightarrow> 'c FrameTree \<Rightarrow> FrameRef \<Rightarrow> 's \<Rightarrow> 's option" where
  "visit pm visitor transform fl frontToBack clips t this s =
     visitLoop pm visitor frontToBack clips t [(this, transform, fl)] s"

text \<open>
  The visitor of \<^verbatim>\<open>queryFramesByPoint\<close>; its state is the array \<^verbatim>\<open>frames\<close>. \<open>containsQuery frame
  transform\<close> is \<^verbatim>\<open>frame.getBounds().containsPoint(local)\<close> for the query point taken to local
  space by the inverse of the transform (\<^verbatim>\<open>Matrix.inverse\<close>, \<^verbatim>\<open>transformPoint\<close>, \<^verbatim>\<open>Rectangle\<close> and
  the overrides of \<^verbatim>\<open>getBounds\<close> are not under src/).
\<close>

definition queryVisitor ::
  "(FrameRef \<Rightarrow> Matrix option \<Rightarrow> bool) \<Rightarrow> bool \<Rightarrow> bool \<Rightarrow> 'c FrameTree
     \<Rightarrow> FrameRef \<Rightarrow> Matrix option \<Rightarrow> FrameFlags \<Rightarrow> FrameRef list \<Rightarrow> VisitorResult \<times> FrameRef list" where
  "queryVisitor containsQuery multiple includeFrameContainers t frame transform fl frames =
     (if fl AND IgnoreQuery \<noteq> 0 then (Skip, frames)
      else if containsQuery frame transform then
        (if isContainer (nodeAt t frame) then
           (if includeFrameContainers then
              (if \<not> multiple then (Stop, frames @ [frame]) else (Continue, frames @ [frame]))
            else (Continue, frames))
         else
           (if \<not> multiple then (Stop, frames @ [frame]) else (Continue, frames @ [frame])))
      else (Skip, frames))"

definition queryFramesByPoint ::
  "(Matrix \<Rightarrow> Matrix \<Rightarrow> Matrix) \<Rightarrow> (FrameRef \<Rightarrow> Matrix option \<Rightarrow> bool) \<Rightarrow> bool \<Rightarrow> bool
     \<Rightarrow> 'c FrameTree \<Rightarrow> FrameRef \<Rightarrow> FrameRef list option" where
  "queryFramesByPoint pm containsQuery multiple includeFrameContainers t this =
     map_option rev
       (visit pm (queryVisitor containsQuery multiple includeFrameContainers t)
          (Some createIdentity) Empty False None t this [])"

text \<open>A visitor that records the frame and the flags of each call and continues.\<close>

definition recordingVisitor ::
  "FrameRef \<Rightarrow> Matrix option \<Rightarrow> FrameFlags \<Rightarrow> (FrameRef \<times> FrameFlags) list
     \<Rightarrow> VisitorResult \<times> (FrameRef \<times> FrameFlags) list" where
  "recordingVisitor frame transform fl seen = (Continue, seen @ [(frame, fl)])"

subsection \<open>Concrete trees\<close>

text \<open>A new frame stripped of every capability, and a container with two new frames.\<close>

definition lockedFrame :: "unit FrameTree" where
  "lockedFrame = PlainFrame ((newFrame 0 1 ())\<lparr>capability := 0\<rparr>)"

definition smallTree :: "unit FrameTree" where
  "smallTree = FrameContainer (newFrame 0 1 ()) [PlainFrame (newFrame 1 1 ()), PlainFrame (newFrame 2 1 ())]"

text \<open>
  An instance of the product \<open>pm\<close> for the examples: between matrices with the identity as
  linear part, as the translations are, the product adds the translations.
\<close>

definition translationProduct :: "Matrix \<Rightarrow> Matrix \<Rightarrow> Matrix" where
  "translationProduct m other = m\<lparr>m_tx := m_tx m + m_tx other, m_ty := m_ty m + m_ty other\<rparr>"

text \<open>A container with three new frames, the first a clip of the two that follow it.\<close>

definition clipTree :: "unit FrameTree" where
  "clipTree = FrameContainer (newFrame 0 1 ())
     [PlainFrame ((newFrame 1 1 ())\<lparr>clip := 2\<rparr>), PlainFrame (newFrame 2 1 ()),
      PlainFrame (newFrame 3 1 ())]"

section \<open>RenderableTileCache\<close>

subsection \<open>Level selection in getTiles\<close>














subsection \<open>cacheTiles\<close>

text \<open>
  What \<^verbatim>\<open>cacheTiles\<close> does to its collaborators: one \<^verbatim>\<open>source.render\<close> per call, for the
  tiles of that call, and one \<^verbatim>\<open>cacheImageCallback\<close> per tile.
\<close>

datatype 't cacheEvent = Render "'t list" | Upload 't

text \<open>
  \<open>fits tiles tile\<close> is \<^verbatim>\<open>scratchBounds.contains(region)\<close> for the region of \<open>tile\<close>
  translated by the union of the bounds of \<open>tiles\<close> (class \<^verbatim>\<open>Rectangle\<close> is not under src/).
  The result is the fault raised, if any, and the events up to it.
\<close>

function cacheTiles ::
  "('t list \<Rightarrow> 't \<Rightarrow> bool) \<Rightarrow> 't list \<Rightarrow> int \<Rightarrow> 't cacheEvent list \<Rightarrow> fault option \<times> 't cacheEvent list" where
  "cacheTiles fits uncachedTiles maxRecursionDepth events =
     (if \<not> maxRecursionDepth > 0 then (Some AssertionFailed, events)
      else if uncachedTiles = [] then (Some TypeError, events)
      else
        (let events1 = events @ [Render uncachedTiles] @ map Upload uncachedTiles;
             remainingUncachedTiles = filter (\<lambda>tile. \<not> fits uncachedTiles tile) uncachedTiles
         in if remainingUncachedTiles = [] then (None, events1)
            else if length remainingUncachedTiles \<ge> 2 then
              (let a = take (length remainingUncachedTiles div 2) remainingUncachedTiles;
                   b = drop (length a) remainingUncachedTiles
               in case cacheTiles fits a (maxRecursionDepth - 1) events1 of
                    (Some e, events2) \<Rightarrow> (Some e, events2)
                  | (None, events2) \<Rightarrow> cacheTiles fits b (maxRecursionDepth - 1) events2)
            else cacheTiles fits remainingUncachedTiles (maxRecursionDepth - 1) events1))"
  by pat_completeness auto
termination
  by (relation "measure (\<lambda>(f, ts, depth, events). nat depth)") auto

text \<open>The call \<^verbatim>\<open>fetchTiles\<close> makes: the default \<^verbatim>\<open>maxRecursionDepth = 4\<close>.\<close>

definition cacheTilesDefault :: "('t list \<Rightarrow> 't \<Rightarrow> bool) \<Rightarrow> 't list \<Rightarrow> fault option \<times> 't cacheEvent list" where
  "cacheTilesDefault fits uncachedTiles = cacheTiles fits uncachedTiles 4 []"

fun isRender :: "'t cacheEvent \<Rightarrow> bool" where
  "isRender (Render ts) = True"
| "isRender (Upload t) = False"

definition renders :: "'t cacheEvent list \<Rightarrow> nat" where
  "renders events = length (filter isRender events)"

section \<open>WebGLCombinedBrush\<close>

datatype WebGLCombinedBrushKind = FillColor | FillTexture | FillTextureWithColorMatrix

text \<open>
  A \<^verbatim>\<open>WebGLTextureRegion\<close>: \<^verbatim>\<open>drawImage\<close> reads its texture (which may be null) for the
  sampler slot; the region only enters the texture coordinates of the vertices.
\<close>

record 't WebGLTextureRegion =
  texture :: "'t option"

text \<open>
  The four vertices \<^verbatim>\<open>writeTo\<close> appends for one quad share their kind and their sampler.
  \<open>drawnWith\<close> is bookkeeping of the model: the \<^verbatim>\<open>colorTransform\<close> argument of the call that
  recorded the quad (the vertices do not store it).
\<close>

record 'c Quad =
  kind :: WebGLCombinedBrushKind
  sampler :: nat
  drawnWith :: "'c option"

text \<open>
  What one \<^verbatim>\<open>flush\<close> hands to GL: the textures bound to the sampler units, the colour
  transform uniform (set only when \<^verbatim>\<open>_colorTransform\<close> is not null), the uploaded quads,
  and whether \<^verbatim>\<open>drawElements\<close> was issued.
\<close>

record ('t, 'c) Batch =
  boundTextures :: "'t list"
  uniformColorTransform :: "'c option"
  quads :: "'c Quad list"
  drawElements :: bool

text \<open>
  The brush: \<^verbatim>\<open>_textures\<close>, \<^verbatim>\<open>_colorTransform\<close> (undefined until the first \<^verbatim>\<open>drawImage\<close>),
  the quads in \<^verbatim>\<open>geometry\<close>, the sampler left in the static \<^verbatim>\<open>_tmpVertices\<close>, and the batches
  flushed so far.
\<close>

record ('t, 'c) WebGLCombinedBrush =
  textures :: "'t list"
  colorTransform :: "'c option"
  geometry :: "'c Quad list"
  tmpSampler :: nat
  submitted :: "('t, 'c) Batch list"

definition newBrush :: "('t, 'c) WebGLCombinedBrush" where
  "newBrush = \<lparr>textures = [], colorTransform = None, geometry = [], tmpSampler = 0, submitted = []\<rparr>"

definition reset :: "('t, 'c) WebGLCombinedBrush \<Rightarrow> ('t, 'c) WebGLCombinedBrush" where
  "reset b = b\<lparr>textures := [], geometry := []\<rparr>"

definition flush :: "bool \<Rightarrow> ('t, 'c) WebGLCombinedBrush \<Rightarrow> ('t, 'c) WebGLCombinedBrush" where
  "flush de b =
     reset (b\<lparr>submitted := submitted b @
       [\<lparr>boundTextures = textures b, uniformColorTransform = colorTransform b,
         quads = geometry b, drawElements = de\<rparr>]\<rparr>)"

text \<open>\<^verbatim>\<open>Array.prototype.indexOf\<close>: the first index, \<open>None\<close> for -1.\<close>

fun indexOf :: "'a list \<Rightarrow> 'a \<Rightarrow> nat option" where
  "indexOf [] x = None"
| "indexOf (y # ys) x = (if y = x then Some 0 else map_option Suc (indexOf ys x))"

text \<open>
  \<^verbatim>\<open>drawImage\<close>. \<open>equals\<close> is \<^verbatim>\<open>ColorMatrix.equals\<close> (class \<^verbatim>\<open>ColorMatrix\<close> is not under src/).
  The destination rectangle, colour, transform and depth only enter the vertex data.
\<close>

definition drawImage ::
  "('c \<Rightarrow> 'c \<Rightarrow> bool) \<Rightarrow> 't WebGLTextureRegion option \<Rightarrow> 'c option \<Rightarrow> ('t, 'c) WebGLCombinedBrush
     \<Rightarrow> bool \<times> ('t, 'c) WebGLCombinedBrush" where
  "drawImage equals src ct b =
     (case src of
        None \<Rightarrow> (True, b)
      | Some region \<Rightarrow>
          (case texture region of
             None \<Rightarrow> (True, b)
           | Some tex \<Rightarrow>
               (let b1 = (case colorTransform b of
                            None \<Rightarrow> b
                          | Some cur \<Rightarrow>
                              (case ct of
                                 None \<Rightarrow> flush True b
                               | Some c \<Rightarrow> if \<not> equals cur c then flush True b else b));
                    b2 = b1\<lparr>colorTransform := ct\<rparr>;
                    b3 = (case indexOf (textures b2) tex of
                            Some i \<Rightarrow> b2\<lparr>tmpSampler := i\<rparr>
                          | None \<Rightarrow>
                              (let b' = (if length (textures b2) = 8 then flush True b2 else b2);
                                   b'' = b'\<lparr>textures := textures b' @ [tex]\<rparr>
                               in b''\<lparr>tmpSampler := length (textures b'') - 1\<rparr>))
                in (True, b3\<lparr>geometry := geometry b3 @
                      [\<lparr>kind = (if ct \<noteq> None then FillTextureWithColorMatrix else FillTexture),
                        sampler = tmpSampler b3, drawnWith = ct\<rparr>]\<rparr>))))"

definition fillRectangle :: "('t, 'c) WebGLCombinedBrush \<Rightarrow> ('t, 'c) WebGLCombinedBrush" where
  "fillRectangle b =
     b\<lparr>geometry := geometry b @ [\<lparr>kind = FillColor, sampler = tmpSampler b, drawnWith = None\<rparr>]\<rparr>"

text \<open>A sequence of calls on one brush.\<close>

datatype ('t, 'c) brushCall =
  DrawImage "'t WebGLTextureRegion option" "'c option" | FillRectangle | Flush bool

fun call :: "('c \<Rightarrow> 'c \<Rightarrow> bool) \<Rightarrow> ('t, 'c) brushCall \<Rightarrow> ('t, 'c) WebGLCombinedBrush \<Rightarrow> ('t, 'c) WebGLCombinedBrush" where
  "call equals (DrawImage src ct) b = snd (drawImage equals src ct b)"
| "call equals FillRectangle b = fillRectangle b"
| "call equals (Flush de) b = flush de b"

definition calls :: "('c \<Rightarrow> 'c \<Rightarrow> bool) \<Rightarrow> ('t, 'c) brushCall list \<Rightarrow> ('t, 'c) WebGLCombinedBrush \<Rightarrow> ('t, 'c) WebGLCombinedBrush" where
  "calls equals cs b = fold (call equals) cs b"

text \<open>\<^verbatim>\<open>drawImage\<close> for each source in turn, with one colour transform.\<close>

definition drawImages :: "('c \<Rightarrow> 'c \<Rightarrow> bool) \<Rightarrow> 'c option \<Rightarrow> 't WebGLTextureRegion option list \<Rightarrow> ('t, 'c) WebGLCombinedBrush \<Rightarrow> ('t, 'c) WebGLCombinedBrush" where
  "drawImages equals ct srcs b = fold (\<lambda>src b. snd (drawImage equals src ct b)) srcs b"

text \<open>The textures a list of sources refers to.\<close>

fun texturesOf :: "'t WebGLTextureRegion option list \<Rightarrow> 't list" where
  "texturesOf [] = []"
| "texturesOf (None # srcs) = texturesOf srcs"
| "texturesOf (Some region # srcs) =
     (case texture region of None \<Rightarrow> texturesOf srcs | Some tex \<Rightarrow> tex # texturesOf srcs)"

text \<open>
  A call with \<open>ct\<close> does not take the colour-transform branch to \<^verbatim>\<open>flush\<close>: the brush has
  no current transform, or \<open>ct\<close> is not null and \<^verbatim>\<open>equals\<close> the current one.
\<close>

definition keepsTransform :: "('c \<Rightarrow> 'c \<Rightarrow> bool) \<Rightarrow> ('t, 'c) WebGLCombinedBrush \<Rightarrow> 'c option \<Rightarrow> bool" where
  "keepsTransform equals b ct =
     (case colorTransform b of
        None \<Rightarrow> True
      | Some cur \<Rightarrow> (case ct of None \<Rightarrow> False | Some c \<Rightarrow> equals cur c))"

text \<open>
  Every quad of the batch that was drawn with a colour transform was drawn with one that
  \<^verbatim>\<open>equals\<close> the uniform of the batch.
\<close>

definition oneTransform :: "('c \<Rightarrow> 'c \<Rightarrow> bool) \<Rightarrow> ('t, 'c) Batch \<Rightarrow> bool" where
  "oneTransform equals batch =
     list_all (\<lambda>q. case drawnWith q of
                      None \<Rightarrow> True
                    | Some c \<Rightarrow> (case uniformColorTransform batch of
                                   None \<Rightarrow> False
                                 | Some u \<Rightarrow> equals u c)) (quads batch)"

text \<open>The quads recorded since the last flush agree with the current \<^verbatim>\<open>_colorTransform\<close>.\<close>

definition currentOne :: "('c \<Rightarrow> 'c \<Rightarrow> bool) \<Rightarrow> ('t, 'c) WebGLCombinedBrush \<Rightarrow> bool" where
  "currentOne equals b =
     oneTransform equals \<lparr>boundTextures = textures b, uniformColorTransform = colorTransform b,
                           quads = geometry b, drawElements = True\<rparr>"

text \<open>At most eight textures, in the brush and in every batch it has flushed.\<close>

definition withinSamplers :: "('t, 'c) WebGLCombinedBrush \<Rightarrow> bool" where
  "withinSamplers b \<longleftrightarrow>
     length (textures b) \<le> 8 \<and> list_all (\<lambda>batch. length (boundTextures batch) \<le> 8) (submitted b)"

text \<open>A region of the texture \<open>tex\<close>.\<close>

definition textureRegion :: "'t \<Rightarrow> 't WebGLTextureRegion option" where
  "textureRegion tex = Some \<lparr>texture = Some tex\<rparr>"


chapter \<open>Properties\<close>

section \<open>Properties of the tile cache\<close>

declare cacheTiles.simps [simp del]

lemma renders_append: "renders (xs @ ys) = renders xs + renders ys"
  by (simp add: renders_def)

lemma renders_uploads: "renders (map Upload ts) = 0"
  by (induction ts) (simp_all add: renders_def)

lemma cacheTiles_exhausted:
  "d \<le> 0 \<Longrightarrow> cacheTiles fits ts d events = (Some AssertionFailed, events)"
  by (subst cacheTiles.simps) simp

lemma cacheTiles_renders_bound:
  "renders (snd (cacheTiles fits ts d events)) + 1 \<le> renders events + 2 ^ nat d"
proof (induction "nat d" arbitrary: d ts events)
  case 0
  then show ?case by (simp add: cacheTiles_exhausted)
next
  case (Suc n)
  then have pos: "d > 0" and dn: "nat (d - 1) = n" by linarith+
  have pw: "(2::nat) ^ nat d = 2 ^ n + 2 ^ n"
    using Suc.hyps(2)[symmetric] by simp
  have IH: "\<And>ts' ev. renders (snd (cacheTiles fits ts' (d - 1) ev)) + 1 \<le> renders ev + 2 ^ n"
    using Suc.hyps(1)[of "d - 1"] dn by simp
  define events1 where "events1 = events @ [Render ts] @ map Upload ts"
  define rem where "rem = filter (\<lambda>tile. \<not> fits ts tile) ts"
  have r1: "renders events1 = renders events + 1"
    by (simp add: events1_def renders_append renders_uploads) (simp add: renders_def)
  have unfold: "cacheTiles fits ts d events =
     (if ts = [] then (Some TypeError, events)
      else if rem = [] then (None, events1)
      else if length rem \<ge> 2 then
        (case cacheTiles fits (take (length rem div 2) rem) (d - 1) events1 of
           (Some e, events2) \<Rightarrow> (Some e, events2)
         | (None, events2) \<Rightarrow> cacheTiles fits (drop (length (take (length rem div 2) rem)) rem) (d - 1) events2)
      else cacheTiles fits rem (d - 1) events1)"
    unfolding events1_def rem_def using pos by (subst cacheTiles.simps) (simp add: Let_def)
  have "(1::nat) \<le> 2 ^ n" by simp
  then have p1: "(2::nat) \<le> 2 ^ n + 2 ^ n" by linarith
  consider (empty) "ts = []" | (fit) "ts \<noteq> []" "rem = []"
    | (two) "ts \<noteq> []" "rem \<noteq> []" "length rem \<ge> 2" | (one) "ts \<noteq> []" "rem \<noteq> []" "\<not> length rem \<ge> 2"
    by blast
  then show ?case
  proof cases
    case empty
    then have "cacheTiles fits ts d events = (Some TypeError, events)" using unfold by simp
    then show ?thesis by simp
  next
    case fit
    then have "cacheTiles fits ts d events = (None, events1)" using unfold by simp
    then show ?thesis using r1 pw p1 by simp
  next
    case one
    then have "cacheTiles fits ts d events = cacheTiles fits rem (d - 1) events1"
      using unfold by simp
    then show ?thesis using r1 pw p1 IH[of rem events1] by simp
  next
    case two
    let ?a = "take (length rem div 2) rem"
    let ?b = "drop (length ?a) rem"
    obtain f2 events2 where ra: "cacheTiles fits ?a (d - 1) events1 = (f2, events2)"
      by (cases "cacheTiles fits ?a (d - 1) events1")
    have ba: "renders events2 + 1 \<le> renders events1 + 2 ^ n"
      using IH[of ?a events1] ra by simp
    show ?thesis
    proof (cases f2)
      case None
      have bb: "renders (snd (cacheTiles fits ?b (d - 1) events2)) + 1 \<le> renders events2 + 2 ^ n"
        by (rule IH)
      have "cacheTiles fits ts d events = cacheTiles fits ?b (d - 1) events2"
        using unfold two ra None by simp
      then show ?thesis using bb ba r1 pw p1 by simp
    next
      case (Some e)
      have "cacheTiles fits ts d events = (Some e, events2)"
        using unfold two ra Some by simp
      then show ?thesis using ba r1 pw p1 by simp
    qed
  qed
qed

lemma cacheTiles_single_remainder:
  assumes "0 < d" and "filter (\<lambda>tile. \<not> fits ts tile) ts = [t]"
  shows "cacheTiles fits ts d events =
           cacheTiles fits [t] (d - 1) (events @ Render ts # map Upload ts)"
proof -
  from assms(2) have "ts \<noteq> []" by auto
  with assms show ?thesis by (subst cacheTiles.simps) (simp add: Let_def)
qed

lemma cacheTiles_never_fits:
  "cacheTilesDefault (\<lambda>ts t. False) [tile] =
     (Some AssertionFailed,
      [Render [tile], Upload tile, Render [tile], Upload tile,
       Render [tile], Upload tile, Render [tile], Upload tile])"
  unfolding cacheTilesDefault_def
  by (simp add: cacheTiles.simps[of _ _ 4] cacheTiles.simps[of _ _ 3] cacheTiles.simps[of _ _ 2]
      cacheTiles.simps[of _ _ 1] cacheTiles.simps[of _ _ 0] Let_def)

lemma cacheTiles_two_remainders:
  assumes "0 < d" and "filter (\<lambda>tile. \<not> fits ts tile) ts = remaining" and "2 \<le> length remaining"
  shows "cacheTiles fits ts d events =
           (case cacheTiles fits (take (length remaining div 2) remaining) (d - 1)
                   (events @ Render ts # map Upload ts) of
              (Some e, events2) \<Rightarrow> (Some e, events2)
            | (None, events2) \<Rightarrow>
                cacheTiles fits (drop (length remaining div 2) remaining) (d - 1) events2)"
proof -
  from assms(2,3) have ne: "ts \<noteq> []" by auto
  from assms(3) have l: "min (length remaining) (length remaining div 2) = length remaining div 2"
    by simp
  from assms(3) have r: "remaining \<noteq> []" by auto
  show ?thesis
    using assms ne r
    by (subst cacheTiles.simps) (simp add: Let_def l cong: prod.case_cong option.case_cong)
qed

lemma cacheTiles_unfold:
  assumes "0 < d" and "ts \<noteq> []"
  shows "cacheTiles fits ts d events =
     (let rem = filter (\<lambda>tile. \<not> fits ts tile) ts; events1 = events @ Render ts # map Upload ts in
      if rem = [] then (None, events1)
      else if length rem \<ge> 2 then
        (case cacheTiles fits (take (length rem div 2) rem) (d - 1) events1 of
           (Some e, events2) \<Rightarrow> (Some e, events2)
         | (None, events2) \<Rightarrow> cacheTiles fits (drop (length rem div 2) rem) (d - 1) events2)
      else cacheTiles fits rem (d - 1) events1)"
proof -
  have "min (length xs) (length xs div 2) = length xs div 2" for xs :: "'a list" by simp
  then show ?thesis using assms
    by (subst cacheTiles.simps) (simp add: Let_def cong: prod.case_cong option.case_cong)
qed

text \<open>On tiles, the only fault is the assertion on the budget.\<close>

lemma cacheTiles_fault:
  "ts \<noteq> [] \<Longrightarrow> fst (cacheTiles fits ts d events) = None
     \<or> fst (cacheTiles fits ts d events) = Some AssertionFailed"
proof (induction "nat d" arbitrary: d ts events)
  case 0
  then show ?case by (simp add: cacheTiles_exhausted)
next
  case (Suc n)
  then have pos: "d > 0" and dn: "n = nat (d - 1)" by linarith+
  define rem where "rem = filter (\<lambda>tile. \<not> fits ts tile) ts"
  define events1 where "events1 = events @ Render ts # map Upload ts"
  note u = cacheTiles_unfold[OF pos Suc.prems, of fits events, folded rem_def events1_def, unfolded Let_def]
  consider (fit) "rem = []" | (two) "rem \<noteq> []" "length rem \<ge> 2" | (one) "rem \<noteq> []" "\<not> length rem \<ge> 2"
    by blast
  then show ?case
  proof cases
    case fit
    then show ?thesis using u by simp
  next
    case one
    then show ?thesis using u Suc.hyps(1)[OF dn, of rem events1] by simp
  next
    case two
    let ?a = "take (length rem div 2) rem"
    let ?b = "drop (length rem div 2) rem"
    from two have ne: "?a \<noteq> []" "?b \<noteq> []" by auto
    obtain f2 events2 where ra: "cacheTiles fits ?a (d - 1) events1 = (f2, events2)"
      by (cases "cacheTiles fits ?a (d - 1) events1")
    show ?thesis
    proof (cases f2)
      case None
      then show ?thesis using u two ra Suc.hyps(1)[OF dn ne(2), of events2] by simp
    next
      case (Some e)
      then show ?thesis using u two ra Suc.hyps(1)[OF dn ne(1), of events1] by simp
    qed
  qed
qed

text \<open>A tile that fits in no rendering makes every call on it end in the assertion.\<close>

lemma cacheTiles_stuck:
  "t \<in> set ts \<Longrightarrow> (\<forall>us. \<not> fits us t) \<Longrightarrow>
     fst (cacheTiles fits ts d events) = Some AssertionFailed"
proof (induction "nat d" arbitrary: d ts events)
  case 0
  then show ?case by (simp add: cacheTiles_exhausted)
next
  case (Suc n)
  then have pos: "d > 0" and dn: "n = nat (d - 1)" by linarith+
  from Suc.prems(1) have ne: "ts \<noteq> []" by auto
  define rem where "rem = filter (\<lambda>tile. \<not> fits ts tile) ts"
  define events1 where "events1 = events @ Render ts # map Upload ts"
  note u = cacheTiles_unfold[OF pos ne, of fits events, folded rem_def events1_def, unfolded Let_def]
  from Suc.prems have tr: "t \<in> set rem" by (simp add: rem_def)
  then have rne: "rem \<noteq> []" by auto
  show ?case
  proof (cases "length rem \<ge> 2")
    case False
    then show ?thesis using u rne Suc.hyps(1)[OF dn tr Suc.prems(2), of events1] by simp
  next
    case True
    let ?a = "take (length rem div 2) rem"
    let ?b = "drop (length rem div 2) rem"
    from True have nea: "?a \<noteq> []" by auto
    from tr have ab: "t \<in> set ?a \<or> t \<in> set ?b"
      using set_append[of ?a ?b] by (simp del: set_append)
    obtain f2 events2 where ra: "cacheTiles fits ?a (d - 1) events1 = (f2, events2)"
      by (cases "cacheTiles fits ?a (d - 1) events1")
    show ?thesis
    proof (cases f2)
      case (Some e)
      with cacheTiles_fault[OF nea, of fits "d - 1" events1] ra have "e = AssertionFailed" by simp
      with Some u rne True ra show ?thesis by simp
    next
      case None
      have "t \<notin> set ?a"
      proof
        assume "t \<in> set ?a"
        from Suc.hyps(1)[OF dn this Suc.prems(2), of events1] ra None show False by simp
      qed
      with ab have "t \<in> set ?b" by simp
      from Suc.hyps(1)[OF dn this Suc.prems(2), of events2] None u rne True ra
      show ?thesis by simp
    qed
  qed
qed

text \<open>
  C9. \<^verbatim>\<open>cacheTiles\<close> always returns (it is a total function: every recursive call is made with
  the budget \<open>maxRecursionDepth - 1\<close>, and the definition's termination proof is the measure
  \<open>nat maxRecursionDepth\<close>). With an exhausted budget the call raises the assertion and does
  nothing else. A call with a positive budget whose single remaining tile does not fit
  recurses on it with the budget one lower; with two or more remaining tiles it recurses on
  the first half with the budget one lower, a fault of that call is the fault of the whole
  call, and else it recurses on the second half with the budget one lower, whose result is
  the result of the whole call. On tiles the only fault raised is the assertion, and a tile
  that fits in no rendering makes the call end in it. A run with budget \<open>d\<close> renders the
  source fewer than \<open>2 ^ d\<close> times, so at most 15 times from \<^verbatim>\<open>fetchTiles\<close>; and a tile that
  never fits the scratch canvas is rendered four times before the fifth call raises the
  assertion.
\<close>

theorem cacheTiles_budget:
  "(maxRecursionDepth \<le> 0 \<longrightarrow>
      cacheTiles fits tiles maxRecursionDepth events = (Some AssertionFailed, events))
   \<and> (0 < maxRecursionDepth \<and> filter (\<lambda>tile. \<not> fits tiles tile) tiles = [t] \<longrightarrow>
      cacheTiles fits tiles maxRecursionDepth events =
        cacheTiles fits [t] (maxRecursionDepth - 1) (events @ Render tiles # map Upload tiles))
   \<and> (0 < maxRecursionDepth \<and> filter (\<lambda>tile. \<not> fits tiles tile) tiles = remaining
        \<and> 2 \<le> length remaining \<longrightarrow>
      cacheTiles fits tiles maxRecursionDepth events =
        (case cacheTiles fits (take (length remaining div 2) remaining) (maxRecursionDepth - 1)
                (events @ Render tiles # map Upload tiles) of
           (Some e, events2) \<Rightarrow> (Some e, events2)
         | (None, events2) \<Rightarrow>
             cacheTiles fits (drop (length remaining div 2) remaining) (maxRecursionDepth - 1)
               events2))
   \<and> (tiles \<noteq> [] \<longrightarrow>
        fst (cacheTiles fits tiles maxRecursionDepth events) = None
        \<or> fst (cacheTiles fits tiles maxRecursionDepth events) = Some AssertionFailed)
   \<and> (t \<in> set tiles \<and> (\<forall>us. \<not> fits us t) \<longrightarrow>
        fst (cacheTiles fits tiles maxRecursionDepth events) = Some AssertionFailed)
   \<and> renders (snd (cacheTiles fits tiles maxRecursionDepth events)) + 1
        \<le> renders events + 2 ^ nat maxRecursionDepth
   \<and> renders (snd (cacheTilesDefault fits tiles)) \<le> 15
   \<and> cacheTilesDefault (\<lambda>ts t. False) [t] =
        (Some AssertionFailed,
         [Render [t], Upload t, Render [t], Upload t, Render [t], Upload t, Render [t], Upload t])"
proof -
  have "renders (snd (cacheTiles fits tiles 4 [])) + 1 \<le> renders ([] :: 'a cacheEvent list) + 2 ^ nat 4"
    by (rule cacheTiles_renders_bound)
  then have d: "renders (snd (cacheTilesDefault fits tiles)) \<le> 15"
    by (simp add: cacheTilesDefault_def renders_def)
  have 1: "maxRecursionDepth \<le> 0 \<longrightarrow>
      cacheTiles fits tiles maxRecursionDepth events = (Some AssertionFailed, events)"
    by (simp add: cacheTiles_exhausted)
  have 2: "0 < maxRecursionDepth \<and> filter (\<lambda>tile. \<not> fits tiles tile) tiles = [t] \<longrightarrow>
      cacheTiles fits tiles maxRecursionDepth events =
        cacheTiles fits [t] (maxRecursionDepth - 1) (events @ Render tiles # map Upload tiles)"
    by (simp add: cacheTiles_single_remainder)
  have 3: "0 < maxRecursionDepth \<and> filter (\<lambda>tile. \<not> fits tiles tile) tiles = remaining
        \<and> 2 \<le> length remaining \<longrightarrow>
      cacheTiles fits tiles maxRecursionDepth events =
        (case cacheTiles fits (take (length remaining div 2) remaining) (maxRecursionDepth - 1)
                (events @ Render tiles # map Upload tiles) of
           (Some e, events2) \<Rightarrow> (Some e, events2)
         | (None, events2) \<Rightarrow>
             cacheTiles fits (drop (length remaining div 2) remaining) (maxRecursionDepth - 1)
               events2)"
    using cacheTiles_two_remainders[of maxRecursionDepth fits tiles remaining events] by blast
  have 4: "tiles \<noteq> [] \<longrightarrow>
        fst (cacheTiles fits tiles maxRecursionDepth events) = None
        \<or> fst (cacheTiles fits tiles maxRecursionDepth events) = Some AssertionFailed"
    using cacheTiles_fault[of tiles fits maxRecursionDepth events] by blast
  have 5: "t \<in> set tiles \<and> (\<forall>us. \<not> fits us t) \<longrightarrow>
        fst (cacheTiles fits tiles maxRecursionDepth events) = Some AssertionFailed"
    using cacheTiles_stuck[of t tiles fits maxRecursionDepth events] by blast
  have 6: "renders (snd (cacheTiles fits tiles maxRecursionDepth events)) + 1
        \<le> renders events + 2 ^ nat maxRecursionDepth"
    by (rule cacheTiles_renders_bound)
  from 1 2 3 4 5 6 d cacheTiles_never_fits[of t] show ?thesis by blast
qed

text \<open>
  Tiles are numbers that fit when above 5, whatever is rendered with them: an exhausted
  budget; one remaining tile; two remaining tiles; and a run from \<^verbatim>\<open>fetchTiles\<close> on two tiles
  that never fit.
\<close>

theorem cacheTiles_budget_witness:
  "cacheTiles (\<lambda>ts t. t > 5) [3, 4 :: nat] 0 [] = (Some AssertionFailed, [])
   \<and> cacheTiles (\<lambda>ts t. t > 5) [3, 7 :: nat] 2 [] =
        cacheTiles (\<lambda>ts t. t > 5) [3] 1 [Render [3, 7], Upload 3, Upload 7]
   \<and> cacheTiles (\<lambda>ts t. t > 5) [3, 7, 4 :: nat] 2 [] =
        (case cacheTiles (\<lambda>ts t. t > 5) [3] 1 [Render [3, 7, 4], Upload 3, Upload 7, Upload 4] of
           (Some e, events2) \<Rightarrow> (Some e, events2)
         | (None, events2) \<Rightarrow> cacheTiles (\<lambda>ts t. t > 5) [4] 1 events2)
   \<and> fst (cacheTiles (\<lambda>ts t. t > 5) [3, 7, 4 :: nat] 2 []) = Some AssertionFailed
   \<and> fst (cacheTilesDefault (\<lambda>ts t. t > 5) [3, 4 :: nat]) = Some AssertionFailed"
proof -
  let ?fits = "\<lambda>(ts :: nat list) (t :: nat). t > 5"
  have a: "cacheTiles ?fits [3, 4] 0 [] = (Some AssertionFailed, [])"
    using cacheTiles_budget[where maxRecursionDepth = 0 and fits = ?fits and tiles = "[3, 4]"
        and events = "[]"]
    by simp
  have f: "filter (\<lambda>tile. \<not> ?fits [3, 7] tile) [3, 7] = [3]" by simp
  have b: "cacheTiles ?fits [3, 7] 2 [] = cacheTiles ?fits [3] 1 [Render [3, 7], Upload 3, Upload 7]"
    using f cacheTiles_budget[where maxRecursionDepth = 2 and fits = ?fits and tiles = "[3, 7]"
        and events = "[]" and t = 3]
    by simp
  have g: "filter (\<lambda>tile. \<not> ?fits [3, 7, 4] tile) [3, 7, 4] = [3, 4]" by simp
  have c: "cacheTiles ?fits [3, 7, 4] 2 [] =
        (case cacheTiles ?fits [3] 1 [Render [3, 7, 4], Upload 3, Upload 7, Upload 4] of
           (Some e, events2) \<Rightarrow> (Some e, events2)
         | (None, events2) \<Rightarrow> cacheTiles ?fits [4] 1 events2)"
    using g cacheTiles_budget[where maxRecursionDepth = 2 and fits = ?fits and tiles = "[3, 7, 4]"
        and events = "[]" and remaining = "[3, 4]"]
    by (simp cong: prod.case_cong option.case_cong)
  have s: "(3 :: nat) \<in> set [3, 7, 4]" "(3 :: nat) \<in> set [3, 4]" "\<forall>us. \<not> ?fits us 3" by simp_all
  have d: "fst (cacheTiles ?fits [3, 7, 4] 2 []) = Some AssertionFailed"
    using s cacheTiles_budget[where maxRecursionDepth = 2 and fits = ?fits and tiles = "[3, 7, 4]"
        and events = "[]" and t = 3]
    by blast
  have e: "fst (cacheTilesDefault ?fits [3, 4]) = Some AssertionFailed"
    unfolding cacheTilesDefault_def
    using s cacheTiles_budget[where maxRecursionDepth = 4 and fits = ?fits and tiles = "[3, 4]"
        and events = "[]" and t = 3]
    by blast
  from a b c d e show ?thesis by blast
qed














section \<open>Properties of the batched brush\<close>

lemma indexOf_None_iff: "indexOf xs x = None \<longleftrightarrow> x \<notin> set xs"
  by (induction xs) auto

lemma indexOf_Some_less: "indexOf xs x = Some i \<Longrightarrow> i < length xs \<and> xs ! i = x"
  by (induction xs arbitrary: i) (auto split: if_splits)

lemma indexOf_Some_mem: "indexOf xs x = Some i \<Longrightarrow> x \<in> set xs"
  using indexOf_None_iff[of xs x] by auto

lemma drawImage_null [simp]:
  "drawImage equals None ct b = (True, b)"
  "texture region = None \<Longrightarrow> drawImage equals (Some region) ct b = (True, b)"
  by (simp_all add: drawImage_def)

lemma keepsTransform_after:
  "(\<forall>c. ct = Some c \<longrightarrow> equals c c) \<Longrightarrow> colorTransform b = ct \<Longrightarrow> keepsTransform equals b ct"
  by (auto simp: keepsTransform_def split: option.splits)

text \<open>One call that keeps the transform and finds its texture bound, or a free slot.\<close>

lemma drawImage_no_flush:
  assumes keep: "keepsTransform equals b ct"
    and tex: "texture region = Some tex"
    and room: "tex \<in> set (textures b) \<or> length (textures b) \<noteq> 8"
  shows "submitted (snd (drawImage equals (Some region) ct b)) = submitted b"
    and "colorTransform (snd (drawImage equals (Some region) ct b)) = ct"
    and "textures (snd (drawImage equals (Some region) ct b)) =
           (if tex \<in> set (textures b) then textures b else textures b @ [tex])"
    and "butlast (geometry (snd (drawImage equals (Some region) ct b))) = geometry b"
proof -
  have b1: "(case colorTransform b of
               None \<Rightarrow> b
             | Some cur \<Rightarrow>
                 (case ct of
                    None \<Rightarrow> flush True b
                  | Some c \<Rightarrow> if \<not> equals cur c then flush True b else b)) = b"
    using keep by (auto simp: keepsTransform_def split: option.splits)
  show "submitted (snd (drawImage equals (Some region) ct b)) = submitted b"
    "colorTransform (snd (drawImage equals (Some region) ct b)) = ct"
    "textures (snd (drawImage equals (Some region) ct b)) =
           (if tex \<in> set (textures b) then textures b else textures b @ [tex])"
    "butlast (geometry (snd (drawImage equals (Some region) ct b))) = geometry b"
    using room tex unfolding drawImage_def b1
    by (auto simp: Let_def indexOf_None_iff split: option.splits dest: indexOf_Some_mem)
qed

lemma card_room:
  assumes "finite T" "card T \<le> 8" "distinct xs" "set xs \<subseteq> T" "x \<in> T" "x \<notin> set xs"
  shows "length xs \<noteq> 8"
proof -
  have "set xs \<subset> T" using assms by auto
  then have "card (set xs) < card T" using assms(1) by (rule psubset_card_mono[rotated])
  then show ?thesis using assms(2,3) by (simp add: distinct_card)
qed

lemma drawImages_no_flush:
  assumes "finite T" "card T \<le> 8" "\<forall>c. ct = Some c \<longrightarrow> equals c c"
  shows "set (texturesOf srcs) \<subseteq> T \<Longrightarrow> distinct (textures b) \<Longrightarrow> set (textures b) \<subseteq> T \<Longrightarrow>
         keepsTransform equals b ct \<Longrightarrow>
         submitted (drawImages equals ct srcs b) = submitted b
         \<and> distinct (textures (drawImages equals ct srcs b))
         \<and> set (textures (drawImages equals ct srcs b)) \<subseteq> T"
proof (induction srcs arbitrary: b)
  case Nil
  then show ?case by (simp add: drawImages_def)
next
  case (Cons src srcs)
  let ?b' = "snd (drawImage equals src ct b)"
  have step: "drawImages equals ct (src # srcs) b = drawImages equals ct srcs ?b'"
    by (simp add: drawImages_def)
  have rest: "set (texturesOf srcs) \<subseteq> T"
    using Cons.prems(1) by (cases src) (auto split: option.splits)
  have inv: "submitted ?b' = submitted b \<and> distinct (textures ?b') \<and> set (textures ?b') \<subseteq> T
             \<and> keepsTransform equals ?b' ct"
  proof (cases src)
    case None
    then show ?thesis using Cons.prems by simp
  next
    case (Some region)
    show ?thesis
    proof (cases "texture region")
      case None
      with Some show ?thesis using Cons.prems by simp
    next
      case tex: (Some tex)
      have inT: "tex \<in> T" using Cons.prems(1) Some tex by simp
      have room: "tex \<in> set (textures b) \<or> length (textures b) \<noteq> 8"
        using card_room[OF assms(1,2) Cons.prems(2,3) inT] by blast
      note d = drawImage_no_flush[OF Cons.prems(4) tex room]
      show ?thesis
        unfolding Some using d(1) d(3) keepsTransform_after[of ct equals, OF assms(3) d(2)] Cons.prems(2,3) inT
        by auto
    qed
  qed
  show ?case unfolding step using Cons.IH[OF rest, of ?b'] inv by simp
qed

text \<open>A call that needs a ninth texture.\<close>

lemma drawImage_ninth:
  assumes keep: "keepsTransform equals b ct"
    and full: "length (textures b) = 8" and new: "tex \<notin> set (textures b)"
  shows "drawImage equals (Some \<lparr>texture = Some tex\<rparr>) ct b =
     (True, b\<lparr>textures := [tex], colorTransform := ct,
              geometry := [\<lparr>kind = (if ct \<noteq> None then FillTextureWithColorMatrix else FillTexture),
                            sampler = 0, drawnWith = ct\<rparr>],
              tmpSampler := 0,
              submitted := submitted b @
                [\<lparr>boundTextures = textures b, uniformColorTransform = ct,
                  quads = geometry b, drawElements = True\<rparr>]\<rparr>)"
proof -
  have b1: "(case colorTransform b of
               None \<Rightarrow> b
             | Some cur \<Rightarrow>
                 (case ct of
                    None \<Rightarrow> flush True b
                  | Some c \<Rightarrow> if \<not> equals cur c then flush True b else b)) = b"
    using keep by (auto simp: keepsTransform_def split: option.splits)
  have idx: "indexOf (textures b) tex = None" using new by (simp add: indexOf_None_iff)
  show ?thesis
    unfolding drawImage_def b1 using idx full
    by (simp add: Let_def flush_def reset_def)
qed

lemma drawImage_textures_bound:
  "length (textures b) \<le> 8 \<Longrightarrow> length (textures (snd (drawImage equals src ct b))) \<le> 8"
  by (auto simp: drawImage_def Let_def flush_def reset_def split: option.splits)

lemma oneTransform_iff:
  "oneTransform equals batch \<longleftrightarrow>
     (\<forall>q \<in> set (quads batch). \<forall>c. drawnWith q = Some c \<longrightarrow>
        (\<exists>u. uniformColorTransform batch = Some u \<and> equals u c))"
  unfolding oneTransform_def list_all_iff
  by (cases "uniformColorTransform batch") (auto split: option.splits)

lemma currentOne_iff:
  "currentOne equals b \<longleftrightarrow>
     (\<forall>q \<in> set (geometry b). \<forall>c. drawnWith q = Some c \<longrightarrow>
        (\<exists>u. colorTransform b = Some u \<and> equals u c))"
  by (simp add: currentOne_def oneTransform_iff)

lemma flush_one:
  assumes "currentOne equals b" "list_all (oneTransform equals) (submitted b)"
  shows "currentOne equals (flush de b) \<and> list_all (oneTransform equals) (submitted (flush de b))"
  using assms by (simp add: flush_def reset_def currentOne_iff oneTransform_iff)

lemma fillRectangle_one:
  assumes "currentOne equals b" "list_all (oneTransform equals) (submitted b)"
  shows "currentOne equals (fillRectangle b)
         \<and> list_all (oneTransform equals) (submitted (fillRectangle b))"
  using assms by (simp add: fillRectangle_def currentOne_iff)

text \<open>The two assignments and the two possible flushes of \<^verbatim>\<open>drawImage\<close>, one at a time.\<close>

lemma colour_step_one:
  fixes ct :: "'c option" and b :: "('t, 'c) WebGLCombinedBrush"
  assumes eq: "equivp equals"
    and inv: "currentOne equals b" "list_all (oneTransform equals) (submitted b)"
  defines "b1 \<equiv> (case colorTransform b of
                    None \<Rightarrow> b
                  | Some cur \<Rightarrow>
                      (case ct of
                         None \<Rightarrow> flush True b
                       | Some c \<Rightarrow> if \<not> equals cur c then flush True b else b))"
  shows "currentOne equals (b1\<lparr>colorTransform := ct\<rparr>)
         \<and> list_all (oneTransform equals) (submitted (b1\<lparr>colorTransform := ct\<rparr>))"
proof (cases "keepsTransform equals b ct")
  case True
  then have b1: "b1 = b" by (auto simp: b1_def keepsTransform_def split: option.splits)
  have "\<exists>u. ct = Some u \<and> equals u c" if "q \<in> set (geometry b)" "drawnWith q = Some c" for q c
  proof -
    from inv(1) that obtain cur where cur: "colorTransform b = Some cur" "equals cur c"
      by (auto simp: currentOne_iff)
    with True obtain c' where c': "ct = Some c'" "equals cur c'"
      by (auto simp: keepsTransform_def split: option.splits)
    from eq c'(2) cur(2) have "equals c' c" by (meson equivp_symp equivp_transp)
    with c' show ?thesis by blast
  qed
  then show ?thesis using inv(2) by (auto simp: b1 currentOne_iff)
next
  case False
  then have b1: "b1 = flush True b" by (auto simp: b1_def keepsTransform_def split: option.splits)
  from flush_one[OF inv] show ?thesis
    by (simp add: b1 currentOne_iff) (simp add: flush_def reset_def)
qed

lemma texture_step_one:
  fixes tex :: 't and b2 :: "('t, 'c) WebGLCombinedBrush"
  assumes inv: "currentOne equals b2" "list_all (oneTransform equals) (submitted b2)"
  defines "b3 \<equiv> (case indexOf (textures b2) tex of
                    Some i \<Rightarrow> b2\<lparr>tmpSampler := i\<rparr>
                  | None \<Rightarrow>
                      (let b' = (if length (textures b2) = 8 then flush True b2 else b2);
                           b'' = b'\<lparr>textures := textures b' @ [tex]\<rparr>
                       in b''\<lparr>tmpSampler := length (textures b'') - 1\<rparr>))"
  shows "currentOne equals b3 \<and> list_all (oneTransform equals) (submitted b3)
         \<and> colorTransform b3 = colorTransform b2"
proof (cases "indexOf (textures b2) tex")
  case None
  show ?thesis
  proof (cases "length (textures b2) = 8")
    case True
    from flush_one[OF inv, of True] show ?thesis
      using None True by (simp add: b3_def Let_def currentOne_iff) (simp add: flush_def reset_def)
  next
    case False
    with None inv show ?thesis by (simp add: b3_def Let_def currentOne_iff)
  qed
next
  case (Some i)
  with inv show ?thesis by (simp add: b3_def currentOne_iff)
qed

lemma drawImage_one:
  assumes eq: "equivp equals"
    and inv: "currentOne equals b" "list_all (oneTransform equals) (submitted b)"
  shows "currentOne equals (snd (drawImage equals src ct b))
         \<and> list_all (oneTransform equals) (submitted (snd (drawImage equals src ct b)))"
proof (cases src)
  case None
  with inv show ?thesis by simp
next
  case (Some region)
  show ?thesis
  proof (cases "texture region")
    case None
    with Some inv show ?thesis by simp
  next
    case tex: (Some tex)
    define b1 where "b1 = (case colorTransform b of
                    None \<Rightarrow> b
                  | Some cur \<Rightarrow>
                      (case ct of
                         None \<Rightarrow> flush True b
                       | Some c \<Rightarrow> if \<not> equals cur c then flush True b else b))"
    define b2 where "b2 = b1\<lparr>colorTransform := ct\<rparr>"
    define b3 where "b3 = (case indexOf (textures b2) tex of
                    Some i \<Rightarrow> b2\<lparr>tmpSampler := i\<rparr>
                  | None \<Rightarrow>
                      (let b' = (if length (textures b2) = 8 then flush True b2 else b2);
                           b'' = b'\<lparr>textures := textures b' @ [tex]\<rparr>
                       in b''\<lparr>tmpSampler := length (textures b'') - 1\<rparr>))"
    have res: "snd (drawImage equals src ct b) =
        b3\<lparr>geometry := geometry b3 @
              [\<lparr>kind = (if ct \<noteq> None then FillTextureWithColorMatrix else FillTexture),
                sampler = tmpSampler b3, drawnWith = ct\<rparr>]\<rparr>"
      unfolding Some drawImage_def b3_def b2_def b1_def using tex by (simp add: Let_def)
    have i2: "currentOne equals b2 \<and> list_all (oneTransform equals) (submitted b2)"
      unfolding b2_def b1_def by (rule colour_step_one[OF eq inv])
    have c2: "colorTransform b2 = ct" by (simp add: b2_def)
    have i3: "currentOne equals b3 \<and> list_all (oneTransform equals) (submitted b3)
         \<and> colorTransform b3 = colorTransform b2"
      unfolding b3_def using i2 by (intro texture_step_one) simp_all
    have "equals c c" for c using eq by (meson equivp_reflp)
    with i3 c2 show ?thesis unfolding res by (auto simp: currentOne_iff)
  qed
qed

lemma newBrush_one:
  "currentOne equals newBrush \<and> list_all (oneTransform equals) (submitted newBrush)"
  by (simp add: newBrush_def currentOne_iff)

lemma calls_one:
  assumes eq: "equivp equals"
  shows "currentOne equals b \<Longrightarrow> list_all (oneTransform equals) (submitted b) \<Longrightarrow>
         currentOne equals (calls equals cs b)
         \<and> list_all (oneTransform equals) (submitted (calls equals cs b))"
proof (induction cs arbitrary: b)
  case Nil
  then show ?case by (simp add: calls_def)
next
  case (Cons c cs)
  have "currentOne equals (call equals c b) \<and> list_all (oneTransform equals) (submitted (call equals c b))"
    using drawImage_one[OF eq Cons.prems] flush_one[OF Cons.prems] fillRectangle_one[OF Cons.prems]
    by (cases c) simp_all
  with Cons.IH[of "call equals c b"] show ?case by (simp add: calls_def)
qed

lemma call_withinSamplers:
  "withinSamplers b \<Longrightarrow> withinSamplers (call equals c b)"
proof (cases c)
  case (DrawImage src ct)
  assume "withinSamplers b"
  then show ?thesis unfolding DrawImage
    by (auto simp: withinSamplers_def drawImage_def Let_def flush_def reset_def split: option.splits)
next
  case FillRectangle
  assume "withinSamplers b"
  then show ?thesis unfolding FillRectangle by (simp add: withinSamplers_def fillRectangle_def)
next
  case (Flush de)
  assume "withinSamplers b"
  then show ?thesis unfolding Flush by (simp add: withinSamplers_def flush_def reset_def)
qed

lemma calls_withinSamplers:
  "withinSamplers b \<Longrightarrow> withinSamplers (calls equals cs b)"
  by (induction cs arbitrary: b) (simp_all add: calls_def call_withinSamplers)

lemma drawImages_within_batch:
  assumes start: "textures b = []" and keep: "keepsTransform equals b ct"
    and refl: "\<forall>c. ct = Some c \<longrightarrow> equals c c"
    and eight: "length (remdups (texturesOf srcs)) \<le> 8"
  shows "submitted (drawImages equals ct srcs b) = submitted b"
    and "length (textures (drawImages equals ct srcs b)) \<le> 8"
proof -
  let ?T = "set (texturesOf srcs)"
  have card: "card ?T \<le> 8" using eight by (simp add: length_remdups_card_conv)
  have inv: "submitted (drawImages equals ct srcs b) = submitted b
         \<and> distinct (textures (drawImages equals ct srcs b))
         \<and> set (textures (drawImages equals ct srcs b)) \<subseteq> ?T"
    by (rule drawImages_no_flush[OF _ card refl _ _ _ keep]) (simp_all add: start)
  then show "submitted (drawImages equals ct srcs b) = submitted b" by simp
  from inv have "length (textures (drawImages equals ct srcs b))
                   = card (set (textures (drawImages equals ct srcs b)))"
    by (simp add: distinct_card)
  also have "\<dots> \<le> card ?T" using inv by (intro card_mono) simp_all
  finally show "length (textures (drawImages equals ct srcs b)) \<le> 8" using card by simp
qed

lemma newBrush_withinSamplers: "withinSamplers newBrush"
  by (simp add: withinSamplers_def newBrush_def)

text \<open>
  C3 (as amended). Take a brush at the start of a batch (no texture bound) whose current
  colour transform is unset or \<^verbatim>\<open>equals\<close> the transform \<open>ct\<close> of the calls (and \<open>ct\<close> equals
  itself). A sequence of \<^verbatim>\<open>drawImage\<close> calls with that one transform that refers to at most
  eight distinct textures flushes nothing and binds at most eight textures, and the flush
  that ends the batch is the only one. A \<^verbatim>\<open>drawImage\<close> that keeps the transform and needs a
  ninth texture flushes the eight bound textures and the recorded quads first, and records
  its own quad with sampler 0 in the new batch. Whatever calls are made on a new brush, it
  never holds more than eight textures, nor does any batch it has flushed.
\<close>

theorem drawImage_sampler_accounting:
  "(textures b = [] \<and> keepsTransform equals b ct \<and> (\<forall>c. ct = Some c \<longrightarrow> equals c c)
      \<and> length (remdups (texturesOf srcs)) \<le> 8 \<longrightarrow>
        submitted (drawImages equals ct srcs b) = submitted b
        \<and> length (textures (drawImages equals ct srcs b)) \<le> 8
        \<and> length (submitted (flush de (drawImages equals ct srcs b))) = length (submitted b) + 1)
   \<and> (keepsTransform equals b ct \<and> length (textures b) = 8 \<and> tex \<notin> set (textures b) \<longrightarrow>
        drawImage equals (Some \<lparr>texture = Some tex\<rparr>) ct b =
          (True, b\<lparr>textures := [tex], colorTransform := ct,
              geometry := [\<lparr>kind = (if ct \<noteq> None then FillTextureWithColorMatrix else FillTexture),
                            sampler = 0, drawnWith = ct\<rparr>],
              tmpSampler := 0,
              submitted := submitted b @
                [\<lparr>boundTextures = textures b, uniformColorTransform = ct,
                  quads = geometry b, drawElements = True\<rparr>]\<rparr>))
   \<and> withinSamplers (calls equals cs newBrush)"
proof (intro conjI impI)
  assume a: "textures b = [] \<and> keepsTransform equals b ct \<and> (\<forall>c. ct = Some c \<longrightarrow> equals c c)
      \<and> length (remdups (texturesOf srcs)) \<le> 8"
  then show s: "submitted (drawImages equals ct srcs b) = submitted b"
    by (intro drawImages_within_batch) simp_all
  from a show "length (textures (drawImages equals ct srcs b)) \<le> 8"
    by (intro drawImages_within_batch) simp_all
  from s show "length (submitted (flush de (drawImages equals ct srcs b))) = length (submitted b) + 1"
    by (simp add: flush_def reset_def)
next
  assume "keepsTransform equals b ct \<and> length (textures b) = 8 \<and> tex \<notin> set (textures b)"
  then show "drawImage equals (Some \<lparr>texture = Some tex\<rparr>) ct b =
          (True, b\<lparr>textures := [tex], colorTransform := ct,
              geometry := [\<lparr>kind = (if ct \<noteq> None then FillTextureWithColorMatrix else FillTexture),
                            sampler = 0, drawnWith = ct\<rparr>],
              tmpSampler := 0,
              submitted := submitted b @
                [\<lparr>boundTextures = textures b, uniformColorTransform = ct,
                  quads = geometry b, drawElements = True\<rparr>]\<rparr>)"
    by (intro drawImage_ninth) simp_all
next
  show "withinSamplers (calls equals cs newBrush)"
    by (rule calls_withinSamplers[OF newBrush_withinSamplers])
qed

theorem drawImage_sampler_accounting_witness:
  "submitted (drawImages (=) (Some (1 :: nat)) [textureRegion (0 :: nat), textureRegion 1, textureRegion 0] newBrush) = []
   \<and> length (submitted (flush True
        (drawImages (=) (Some (1 :: nat)) [textureRegion (0 :: nat), textureRegion 1, textureRegion 0] newBrush))) = 1
   \<and> drawImage (=) (Some \<lparr>texture = Some (8 :: nat)\<rparr>) (Some (1 :: nat))
        \<lparr>textures = [0, 1, 2, 3, 4, 5, 6, 7], colorTransform = Some 1, geometry = [],
         tmpSampler = 0, submitted = []\<rparr> =
       (True, \<lparr>textures = [8], colorTransform = Some 1,
               geometry = [\<lparr>kind = FillTextureWithColorMatrix, sampler = 0, drawnWith = Some 1\<rparr>],
               tmpSampler = 0,
               submitted = [\<lparr>boundTextures = [0, 1, 2, 3, 4, 5, 6, 7], uniformColorTransform = Some 1,
                             quads = [], drawElements = True\<rparr>]\<rparr>)"
proof -
  let ?b = "newBrush :: (nat, nat) WebGLCombinedBrush"
  let ?srcs = "[textureRegion (0 :: nat), textureRegion 1, textureRegion 0]"
  let ?b8 = "\<lparr>textures = [0, 1, 2, 3, 4, 5, 6, 7 :: nat], colorTransform = Some (1 :: nat),
              geometry = [], tmpSampler = 0, submitted = []\<rparr>"
  have h1: "textures ?b = [] \<and> keepsTransform (=) ?b (Some 1) \<and> (\<forall>c. Some (1 :: nat) = Some c \<longrightarrow> c = c)
      \<and> length (remdups (texturesOf ?srcs)) \<le> 8"
    by (simp add: newBrush_def keepsTransform_def textureRegion_def)
  have h2: "keepsTransform (=) ?b8 (Some 1) \<and> length (textures ?b8) = 8 \<and> 8 \<notin> set (textures ?b8)"
    by (simp add: keepsTransform_def)
  from h1 drawImage_sampler_accounting [where b = ?b and equals = "(=)" and ct = "Some 1"
      and srcs = ?srcs and de = True and tex = 0 and cs = "[]"]
  have c1: "submitted (drawImages (=) (Some 1) ?srcs ?b) = submitted ?b
        \<and> length (submitted (flush True (drawImages (=) (Some 1) ?srcs ?b))) = length (submitted ?b) + 1"
    by blast
  from h2 drawImage_sampler_accounting [where b = ?b8 and equals = "(=)" and ct = "Some 1"
      and srcs = "[]" and de = True and tex = 8 and cs = "[]"]
  have c2: "drawImage (=) (Some \<lparr>texture = Some 8\<rparr>) (Some 1) ?b8 =
          (True, ?b8\<lparr>textures := [8], colorTransform := Some 1,
              geometry := [\<lparr>kind = (if Some (1 :: nat) \<noteq> None then FillTextureWithColorMatrix else FillTexture),
                            sampler = 0, drawnWith = Some 1\<rparr>],
              tmpSampler := 0,
              submitted := submitted ?b8 @
                [\<lparr>boundTextures = textures ?b8, uniformColorTransform = Some 1,
                  quads = geometry ?b8, drawElements = True\<rparr>]\<rparr>)"
    by blast
  have s0: "submitted ?b = []" by (simp add: newBrush_def)
  show ?thesis using c1 c2 unfolding s0 by simp
qed

text \<open>
  The claim as stated fails for a batch that follows another one: \<^verbatim>\<open>reset\<close> keeps
  \<^verbatim>\<open>_colorTransform\<close>, so after a batch drawn with the transform 1 a single \<^verbatim>\<open>drawImage\<close> with
  one texture and the constant transform null flushes before it records its quad.
\<close>

theorem drawImage_sampler_accounting_counterexample:
  "textures (flush True (snd (drawImage (=) (textureRegion (0 :: nat)) (Some (1 :: nat)) newBrush))) = []
   \<and> geometry (flush True (snd (drawImage (=) (textureRegion (0 :: nat)) (Some (1 :: nat)) newBrush))) = []
   \<and> length (submitted (flush True (snd (drawImage (=) (textureRegion (0 :: nat)) (Some (1 :: nat)) newBrush)))) = 1
   \<and> length (remdups (texturesOf [textureRegion (0 :: nat)])) = 1
   \<and> length (submitted (drawImages (=) None [textureRegion (0 :: nat)]
        (flush True (snd (drawImage (=) (textureRegion (0 :: nat)) (Some (1 :: nat)) newBrush))))) = 2"
  by (simp add: drawImages_def drawImage_def flush_def reset_def newBrush_def textureRegion_def Let_def)

text \<open>
  C4 (as amended). A \<^verbatim>\<open>drawImage\<close> of a texture on a brush that has a current colour
  transform, with a transform that is null or does not equal it, flushes the recorded quads
  with the current transform as uniform before it records its quad in a new batch. On a
  brush with no current colour transform the call does not flush on account of the
  transform (only for a ninth texture). For an equivalence \<^verbatim>\<open>equals\<close>, in every batch flushed
  by any sequence of calls on a new brush, every quad drawn with a colour transform was
  drawn with one that equals the uniform of the batch; quads drawn without one may share
  the batch.
\<close>

theorem drawImage_colour_transform:
  "(colorTransform b = Some cur \<and> (ct = None \<or> (\<exists>c. ct = Some c \<and> \<not> equals cur c)) \<longrightarrow>
      drawImage equals (Some \<lparr>texture = Some tex\<rparr>) ct b =
        (True, b\<lparr>textures := [tex], colorTransform := ct,
            geometry := [\<lparr>kind = (if ct \<noteq> None then FillTextureWithColorMatrix else FillTexture),
                          sampler = 0, drawnWith = ct\<rparr>],
            tmpSampler := 0,
            submitted := submitted b @
              [\<lparr>boundTextures = textures b, uniformColorTransform = Some cur,
                quads = geometry b, drawElements = True\<rparr>]\<rparr>))
   \<and> (colorTransform b = None \<and> (tex \<in> set (textures b) \<or> length (textures b) \<noteq> 8) \<longrightarrow>
        submitted (snd (drawImage equals (Some \<lparr>texture = Some tex\<rparr>) ct b)) = submitted b
        \<and> butlast (geometry (snd (drawImage equals (Some \<lparr>texture = Some tex\<rparr>) ct b))) = geometry b)
   \<and> (equivp equals \<longrightarrow> list_all (oneTransform equals) (submitted (calls equals cs newBrush)))"
proof (intro conjI impI)
  assume a: "colorTransform b = Some cur \<and> (ct = None \<or> (\<exists>c. ct = Some c \<and> \<not> equals cur c))"
  then have b1: "(case colorTransform b of
               None \<Rightarrow> b
             | Some cur \<Rightarrow>
                 (case ct of
                    None \<Rightarrow> flush True b
                  | Some c \<Rightarrow> if \<not> equals cur c then flush True b else b)) = flush True b"
    by auto
  show "drawImage equals (Some \<lparr>texture = Some tex\<rparr>) ct b =
        (True, b\<lparr>textures := [tex], colorTransform := ct,
            geometry := [\<lparr>kind = (if ct \<noteq> None then FillTextureWithColorMatrix else FillTexture),
                          sampler = 0, drawnWith = ct\<rparr>],
            tmpSampler := 0,
            submitted := submitted b @
              [\<lparr>boundTextures = textures b, uniformColorTransform = Some cur,
                quads = geometry b, drawElements = True\<rparr>]\<rparr>)"
    unfolding drawImage_def b1 using a by (simp add: Let_def flush_def reset_def)
next
  assume a: "colorTransform b = None \<and> (tex \<in> set (textures b) \<or> length (textures b) \<noteq> 8)"
  then have keep: "keepsTransform equals b ct" by (simp add: keepsTransform_def)
  have t: "texture \<lparr>texture = Some tex\<rparr> = Some tex" by simp
  from a have room: "tex \<in> set (textures b) \<or> length (textures b) \<noteq> 8" by simp
  show "submitted (snd (drawImage equals (Some \<lparr>texture = Some tex\<rparr>) ct b)) = submitted b"
    by (rule drawImage_no_flush(1)[OF keep t room])
  show "butlast (geometry (snd (drawImage equals (Some \<lparr>texture = Some tex\<rparr>) ct b))) = geometry b"
    by (rule drawImage_no_flush(4)[OF keep t room])
next
  assume e: "equivp equals"
  show "list_all (oneTransform equals) (submitted (calls equals cs newBrush))"
    by (rule conjunct2[OF calls_one[OF e conjunct1[OF newBrush_one] conjunct2[OF newBrush_one]]])
qed

theorem drawImage_colour_transform_witness:
  "drawImage (=) (Some \<lparr>texture = Some (0 :: nat)\<rparr>) None
      \<lparr>textures = [5], colorTransform = Some (1 :: nat),
       geometry = [\<lparr>kind = FillTextureWithColorMatrix, sampler = 0, drawnWith = Some 1\<rparr>],
       tmpSampler = 0, submitted = []\<rparr> =
     (True, \<lparr>textures = [0], colorTransform = None,
             geometry = [\<lparr>kind = FillTexture, sampler = 0, drawnWith = None\<rparr>],
             tmpSampler = 0,
             submitted = [\<lparr>boundTextures = [5], uniformColorTransform = Some 1,
               quads = [\<lparr>kind = FillTextureWithColorMatrix, sampler = 0, drawnWith = Some 1\<rparr>],
               drawElements = True\<rparr>]\<rparr>)
   \<and> submitted (snd (drawImage (=) (Some \<lparr>texture = Some (0 :: nat)\<rparr>) (Some (1 :: nat)) newBrush)) = []
   \<and> list_all (oneTransform (=))
        (submitted (calls (=) [DrawImage (textureRegion (0 :: nat)) (Some (1 :: nat)),
                               DrawImage (textureRegion 0) (Some 2), Flush True] newBrush))"
proof -
  let ?b = "\<lparr>textures = [5 :: nat], colorTransform = Some (1 :: nat),
       geometry = [\<lparr>kind = FillTextureWithColorMatrix, sampler = 0, drawnWith = Some 1\<rparr>],
       tmpSampler = 0, submitted = []\<rparr>"
  let ?n = "newBrush :: (nat, nat) WebGLCombinedBrush"
  let ?cs = "[DrawImage (textureRegion (0 :: nat)) (Some (1 :: nat)), DrawImage (textureRegion 0) (Some 2), Flush True]"
  have h1: "colorTransform ?b = Some 1 \<and> ((None :: nat option) = None \<or> (\<exists>c. None = Some c \<and> \<not> 1 = c))"
    by simp
  have h2: "colorTransform ?n = None \<and> (0 \<in> set (textures ?n) \<or> length (textures ?n) \<noteq> 8)"
    by (simp add: newBrush_def)
  have h3: "equivp ((=) :: nat \<Rightarrow> nat \<Rightarrow> bool)" by (rule identity_equivp)
  from h1 drawImage_colour_transform [where equals = "(=)" and cur = 1 and ct = None and tex = 0
      and cs = "[]" and b = ?b]
  have c1: "drawImage (=) (Some \<lparr>texture = Some 0\<rparr>) None ?b =
        (True, ?b\<lparr>textures := [0], colorTransform := None,
            geometry := [\<lparr>kind = (if (None :: nat option) \<noteq> None then FillTextureWithColorMatrix else FillTexture),
                          sampler = 0, drawnWith = None\<rparr>],
            tmpSampler := 0,
            submitted := submitted ?b @
              [\<lparr>boundTextures = textures ?b, uniformColorTransform = Some 1,
                quads = geometry ?b, drawElements = True\<rparr>]\<rparr>)"
    by blast
  from h2 h3 drawImage_colour_transform [where equals = "(=)" and cur = 1 and ct = "Some 1"
      and tex = 0 and b = ?n and cs = ?cs]
  have c2: "submitted (snd (drawImage (=) (Some \<lparr>texture = Some 0\<rparr>) (Some 1) ?n)) = submitted ?n
     \<and> list_all (oneTransform (=)) (submitted (calls (=) ?cs ?n))"
    by blast
  have s0: "submitted ?n = []" by (simp add: newBrush_def)
  show ?thesis using c1 c2 unfolding s0 by simp
qed

text \<open>
  The claim as stated fails on a brush with no current colour transform: after a quad
  drawn with the transform null, a call with the transform 1 differs from the current one
  and records its quad in the same batch, without a flush.
\<close>

theorem drawImage_colour_transform_counterexample:
  "colorTransform (snd (drawImage (=) (textureRegion (0 :: nat)) None newBrush)) = (None :: nat option)
   \<and> snd (drawImage (=) (textureRegion (0 :: nat)) (Some (1 :: nat))
            (snd (drawImage (=) (textureRegion 0) None newBrush))) =
       \<lparr>textures = [0], colorTransform = Some 1,
        geometry = [\<lparr>kind = FillTexture, sampler = 0, drawnWith = None\<rparr>,
                    \<lparr>kind = FillTextureWithColorMatrix, sampler = 0, drawnWith = Some 1\<rparr>],
        tmpSampler = 0, submitted = []\<rparr>"
  by (simp add: drawImage_def flush_def reset_def newBrush_def textureRegion_def Let_def)

section \<open>Properties of frames\<close>

subsection \<open>References into a tree\<close>

lemma subtreePath_append:
  "subtreePath t (p @ q) = (case subtreePath t p of None \<Rightarrow> None | Some n \<Rightarrow> subtreePath n q)"
proof (induction p arbitrary: t)
  case Nil
  show ?case by simp
next
  case (Cons i p)
  then show ?case by (cases t) simp_all
qed

lemma modifyPath_invalid: "subtreePath t p = None \<Longrightarrow> modifyPath h p t = t"
proof (induction p arbitrary: t)
  case Nil
  then show ?case by simp
next
  case (Cons i p)
  then show ?case by (cases t) (auto simp: list_update_same_conv)
qed

lemma modifyPath_below:
  "subtreePath t p = Some n \<Longrightarrow> subtreePath (modifyPath h p t) (p @ q) = subtreePath (h n) q"
proof (induction p arbitrary: t)
  case Nil
  then show ?case by simp
next
  case (Cons i p)
  then show ?case by (cases t) (auto split: if_splits)
qed

lemma modifyPath_apart:
  "\<not> prefix p q \<Longrightarrow> \<not> prefix q p \<Longrightarrow> subtreePath (modifyPath h p t) q = subtreePath t q"
proof (induction p arbitrary: t q)
  case Nil
  then show ?case by simp
next
  case (Cons i p)
  from Cons.prems obtain j q' where q: "q = j # q'" by (cases q) auto
  show ?case
  proof (cases t)
    case (PlainFrame fr)
    then show ?thesis by simp
  next
    case (FrameContainer fr cs)
    show ?thesis
    proof (cases "i = j")
      case True
      with Cons.prems q have "\<not> prefix p q'" "\<not> prefix q' p" by auto
      from Cons.IH[OF this] show ?thesis using FrameContainer q True by auto
    next
      case False
      then show ?thesis using FrameContainer q by auto
    qed
  qed
qed

lemma modifyPath_above:
  "strict_prefix q p \<Longrightarrow>
     map_option frameOf (subtreePath (modifyPath h p t) q) = map_option frameOf (subtreePath t q)
     \<and> map_option (\<lambda>n. length (children n)) (subtreePath (modifyPath h p t) q)
         = map_option (\<lambda>n. length (children n)) (subtreePath t q)"
proof (induction q arbitrary: t p)
  case Nil
  then obtain i p' where p: "p = i # p'" by (cases p) auto
  show ?case unfolding p by (cases t) auto
next
  case (Cons j q)
  then obtain p' where p: "p = j # p'" and sp: "strict_prefix q p'" by (cases p) auto
  show ?case
  proof (cases t)
    case (PlainFrame fr)
    then show ?thesis by (simp add: p)
  next
    case (FrameContainer fr cs)
    then show ?thesis using Cons.IH[OF sp] by (auto simp: p)
  qed
qed

lemma prefix_cases3:
  obtains (below) q' where "q = p @ q'" | (above) "strict_prefix q p"
    | (apart) "\<not> prefix p q" "\<not> prefix q p"
  by (metis prefix_def strict_prefix_def)

lemma subtreePath_withFrame:
  "q \<noteq> [] \<Longrightarrow> subtreePath (withFrame g n) q = subtreePath n q"
  by (cases n; cases q) auto

text \<open>What an assignment to fields of the frame \<open>r\<close> does to the tree.\<close>

lemma validRef_updateFrameAt [simp]:
  "validRef (updateFrameAt g r t) q = validRef t q"
proof (cases "subtreePath t (rev r)")
  case None
  then show ?thesis by (simp add: updateFrameAt_def modifyPath_invalid)
next
  case (Some n)
  show ?thesis
  proof (cases "rev q" "rev r" rule: prefix_cases3)
    case (below q')
    show ?thesis
    proof (cases "q' = []")
      case True
      with below Some show ?thesis
        using modifyPath_below[OF Some, of "withFrame g" "[]"]
        by (simp add: validRef_def subtreeAt_def updateFrameAt_def)
    next
      case False
      with below Some show ?thesis
        using modifyPath_below[OF Some, of "withFrame g" q']
        by (simp add: validRef_def subtreeAt_def updateFrameAt_def subtreePath_withFrame subtreePath_append)
    qed
  next
    case above
    from modifyPath_above[OF this, of "withFrame g" t]
    have "map_option frameOf (subtreePath (modifyPath (withFrame g) (rev r) t) (rev q))
            = map_option frameOf (subtreePath t (rev q))" by blast
    then have "subtreePath (modifyPath (withFrame g) (rev r) t) (rev q) = None
                 \<longleftrightarrow> subtreePath t (rev q) = None"
      by (metis option.map_disc_iff)
    then show ?thesis by (simp add: validRef_def subtreeAt_def updateFrameAt_def)
  next
    case apart
    from modifyPath_apart[OF apart, of "withFrame g" t] show ?thesis
      by (simp add: validRef_def subtreeAt_def updateFrameAt_def)
  qed
qed

lemma frameAt_updateFrameAt:
  assumes "validRef t q"
  shows "frameAt (updateFrameAt g r t) q = (if q = r then g (frameAt t q) else frameAt t q)"
proof (cases "subtreePath t (rev r)")
  case None
  with assms have "q \<noteq> r" by (auto simp: validRef_def subtreeAt_def)
  with None show ?thesis by (simp add: updateFrameAt_def modifyPath_invalid frameAt_def nodeAt_def subtreeAt_def)
next
  case (Some n)
  show ?thesis
  proof (cases "rev q" "rev r" rule: prefix_cases3)
    case (below q')
    show ?thesis
    proof (cases "q' = []")
      case True
      with below have "q = r" by simp
      with Some show ?thesis
        using modifyPath_below[OF Some, of "withFrame g" "[]"]
        by (cases n) (simp_all add: frameAt_def nodeAt_def subtreeAt_def updateFrameAt_def)
    next
      case False
      with below have "q \<noteq> r" by auto
      with below Some False show ?thesis
        using modifyPath_below[OF Some, of "withFrame g" q']
        by (simp add: frameAt_def nodeAt_def subtreeAt_def updateFrameAt_def subtreePath_withFrame subtreePath_append)
    qed
  next
    case above
    then have "q \<noteq> r" by auto
    moreover from assms obtain m where "subtreePath t (rev q) = Some m"
      by (auto simp: validRef_def subtreeAt_def)
    ultimately show ?thesis using modifyPath_above[OF above, of "withFrame g" t]
      by (auto simp: frameAt_def nodeAt_def subtreeAt_def updateFrameAt_def)
  next
    case apart
    then have "q \<noteq> r" by auto
    with modifyPath_apart[OF apart, of "withFrame g" t] show ?thesis
      by (simp add: frameAt_def nodeAt_def subtreeAt_def updateFrameAt_def)
  qed
qed

text \<open>The parent of a valid reference is valid, and is a container.\<close>

lemma subtreeAt_Cons:
  "subtreeAt t (i # up) =
     (case subtreeAt t up of
        None \<Rightarrow> None
      | Some n \<Rightarrow> if i < length (children n) then Some (children n ! i) else None)"
proof -
  have "subtreePath n [i] = (if i < length (children n) then Some (children n ! i) else None)" for n :: "'a FrameTree"
    by (cases n) auto
  then show ?thesis by (simp add: subtreeAt_def subtreePath_append split: option.splits)
qed

lemma validRef_Nil [simp]: "validRef t []"
  by (simp add: validRef_def subtreeAt_def)

lemma validRef_parent: "validRef t (i # up) \<Longrightarrow> validRef t up"
  by (auto simp: validRef_def subtreeAt_Cons split: option.splits)

lemma validRef_suffix: "validRef t q \<Longrightarrow> suffix r q \<Longrightarrow> validRef t r"
proof (induction q)
  case Nil
  then show ?case by simp
next
  case (Cons i q)
  then show ?case by (auto simp: suffix_Cons dest: validRef_parent)
qed

subsection \<open>Flags\<close>

lemma or_and_disjoint: "fl AND fl' = 0 \<Longrightarrow> (x OR fl) AND fl' = x AND (fl' :: 32 word)"
  by (simp add: word_ao_dist)

lemma or_and_subset:
  assumes "fl AND fl' = (fl' :: 32 word)"
  shows "(x OR fl) AND fl' = fl'"
proof (rule bit_eqI)
  fix n
  from assms have "bit (fl AND fl') n = bit fl' n" by simp
  then show "bit ((x OR fl) AND fl') n = bit fl' n"
    by (auto simp: bit_and_iff bit_or_iff)
qed

lemma and_or_mono:
  assumes "x AND fl = (fl :: 32 word)"
  shows "(x OR fl') AND fl = fl"
proof (rule bit_eqI)
  fix n
  from assms have "bit (x AND fl) n = bit fl n" by simp
  then show "bit ((x OR fl') AND fl) n = bit fl n"
    by (auto simp: bit_and_iff bit_or_iff)
qed

lemma andnot_and: "((x :: 32 word) AND NOT fl) AND fl = 0"
  by (simp add: word_bw_assocs)

lemma hasFlags_setFlags_disjoint:
  "fl AND fl' = 0 \<Longrightarrow> hasFlags (setFlags fr fl) fl' = hasFlags fr fl'"
  by (simp add: hasFlags_def setFlags_def or_and_disjoint)

lemma hasFlags_setFlags_subset:
  "fl AND fl' = fl' \<Longrightarrow> hasFlags (setFlags fr fl) fl'"
  by (simp add: hasFlags_def setFlags_def or_and_subset)

lemma hasFlags_setFlags_mono: "hasFlags fr fl \<Longrightarrow> hasFlags (setFlags fr fl') fl"
  by (simp add: hasFlags_def setFlags_def and_or_mono)

lemma hasFlags_setFlags_same: "hasFlags (setFlags fr fl) fl"
  by (rule hasFlags_setFlags_subset) simp

lemma hasFlags_removeFlags: "fl \<noteq> 0 \<Longrightarrow> \<not> hasFlags (removeFlags fr fl) fl"
  by (simp add: hasFlags_def removeFlags_def andnot_and)

lemma setFlags_idem: "setFlags (setFlags fr fl) fl = setFlags fr fl"
  by (simp add: setFlags_def word_bw_assocs)

lemma flag_constants:
  "(InvalidConcatenatedMatrix OR InvalidInvertedConcatenatedMatrix) AND InvalidConcatenatedMatrix
     = InvalidConcatenatedMatrix"
  "InvalidBounds AND InvalidConcatenatedMatrix = 0"
  "InvalidPaint AND InvalidConcatenatedMatrix = 0"
  "InvalidConcatenatedMatrix \<noteq> 0"
  by (simp_all add: InvalidConcatenatedMatrix_def InvalidInvertedConcatenatedMatrix_def
      InvalidBounds_def InvalidPaint_def)

text \<open>What the two propagations do to each frame.\<close>

lemma subtreePath_propagateFlagsDownFrom:
  "subtreePath (propagateFlagsDownFrom fl n) q = map_option (propagateFlagsDownFrom fl) (subtreePath n q)"
proof (induction q arbitrary: n)
  case Nil
  show ?case by simp
next
  case (Cons i q)
  then show ?case by (cases n) auto
qed

lemma frameOf_propagateFlagsDownFrom:
  "frameOf (propagateFlagsDownFrom fl n) = setFlags (frameOf n) fl"
  by (cases n) simp_all

lemma validRef_propagateFlagsDown [simp]:
  "validRef (propagateFlagsDown fl r t) q = validRef t q"
proof (cases "subtreePath t (rev r)")
  case None
  then show ?thesis by (simp add: propagateFlagsDown_def modifyPath_invalid)
next
  case (Some n)
  show ?thesis
  proof (cases "rev q" "rev r" rule: prefix_cases3)
    case (below q')
    with Some show ?thesis
      using modifyPath_below[OF Some, of "propagateFlagsDownFrom fl" q']
      by (simp add: validRef_def subtreeAt_def propagateFlagsDown_def
          subtreePath_propagateFlagsDownFrom subtreePath_append)
  next
    case above
    from modifyPath_above[OF this, of "propagateFlagsDownFrom fl" t]
    have "map_option frameOf (subtreePath (modifyPath (propagateFlagsDownFrom fl) (rev r) t) (rev q))
            = map_option frameOf (subtreePath t (rev q))" by blast
    then have "subtreePath (modifyPath (propagateFlagsDownFrom fl) (rev r) t) (rev q) = None
                 \<longleftrightarrow> subtreePath t (rev q) = None"
      by (metis option.map_disc_iff)
    then show ?thesis by (simp add: validRef_def subtreeAt_def propagateFlagsDown_def)
  next
    case apart
    from modifyPath_apart[OF apart, of "propagateFlagsDownFrom fl" t] show ?thesis
      by (simp add: validRef_def subtreeAt_def propagateFlagsDown_def)
  qed
qed

lemma frameAt_propagateFlagsDown:
  assumes "validRef t q"
  shows "frameAt (propagateFlagsDown fl r t) q =
           (if suffix r q then setFlags (frameAt t q) fl else frameAt t q)"
proof (cases "subtreePath t (rev r)")
  case None
  have "\<not> suffix r q"
  proof
    assume "suffix r q"
    with assms have "validRef t r" by (rule validRef_suffix)
    with None show False by (simp add: validRef_def subtreeAt_def)
  qed
  with None show ?thesis
    by (simp add: propagateFlagsDown_def modifyPath_invalid frameAt_def nodeAt_def subtreeAt_def)
next
  case (Some n)
  from assms obtain m where m: "subtreePath t (rev q) = Some m"
    by (auto simp: validRef_def subtreeAt_def)
  show ?thesis
  proof (cases "rev q" "rev r" rule: prefix_cases3)
    case (below q')
    then have "prefix (rev r) (rev q)" by simp
    then have suf: "suffix r q" by (simp add: suffix_to_prefix)
    from m below Some have "subtreePath n q' = Some m" by (simp add: subtreePath_append)
    with below Some suf show ?thesis
      using modifyPath_below[OF Some, of "propagateFlagsDownFrom fl" q'] m
      by (simp add: frameAt_def nodeAt_def subtreeAt_def propagateFlagsDown_def
          subtreePath_propagateFlagsDownFrom frameOf_propagateFlagsDownFrom)
  next
    case above
    then have "\<not> suffix r q" by (auto simp: suffix_to_prefix)
    with m show ?thesis using modifyPath_above[OF above, of "propagateFlagsDownFrom fl" t]
      by (auto simp: frameAt_def nodeAt_def subtreeAt_def propagateFlagsDown_def)
  next
    case apart
    then have "\<not> suffix r q" by (simp add: suffix_to_prefix)
    with modifyPath_apart[OF apart, of "propagateFlagsDownFrom fl" t] show ?thesis
      by (simp add: frameAt_def nodeAt_def subtreeAt_def propagateFlagsDown_def)
  qed
qed

lemma validRef_propagateFlagsUp [simp]:
  "validRef (propagateFlagsUp fl r t) q = validRef t q"
  by (induction fl r t rule: propagateFlagsUp.induct) simp_all

lemma frameAt_propagateFlagsUp:
  "validRef t q \<Longrightarrow>
     frameAt (propagateFlagsUp fl r t) q = frameAt t q
     \<or> frameAt (propagateFlagsUp fl r t) q = setFlags (frameAt t q) fl"
proof (induction fl r t rule: propagateFlagsUp.induct)
  case (1 fl t)
  then show ?case by (simp add: frameAt_updateFrameAt)
next
  case (2 fl i up t)
  show ?case
  proof (cases "hasFlags (frameAt t (i # up)) fl")
    case True
    then show ?thesis by simp
  next
    case False
    let ?t1 = "updateFrameAt (\<lambda>fr. setFlags fr fl) (i # up) t"
    from "2.prems" have v: "validRef ?t1 q" by simp
    from "2.IH"[OF False v] have
      "frameAt (propagateFlagsUp fl up ?t1) q = frameAt ?t1 q
       \<or> frameAt (propagateFlagsUp fl up ?t1) q = setFlags (frameAt ?t1 q) fl" .
    moreover have "frameAt ?t1 q = frameAt t q \<or> frameAt ?t1 q = setFlags (frameAt t q) fl"
      using "2.prems" by (simp add: frameAt_updateFrameAt)
    ultimately show ?thesis using False by (auto simp: setFlags_idem)
  qed
qed

subsection \<open>Setters\<close>

lemma hasFlags_propagateFlagsUp_mono:
  "validRef t q \<Longrightarrow> hasFlags (frameAt t q) fl' \<Longrightarrow>
     hasFlags (frameAt (propagateFlagsUp fl r t) q) fl'"
  using frameAt_propagateFlagsUp[of t q fl r] by (auto simp: hasFlags_setFlags_mono)

lemma hasFlags_propagateFlagsUp_self:
  assumes "validRef t r"
  shows "hasFlags (frameAt (propagateFlagsUp fl r t) r) fl"
proof (cases r)
  case Nil
  then show ?thesis by (simp add: frameAt_updateFrameAt hasFlags_setFlags_same)
next
  case (Cons i up)
  show ?thesis
  proof (cases "hasFlags (frameAt t (i # up)) fl")
    case True
    then show ?thesis by (simp add: Cons)
  next
    case False
    let ?t1 = "updateFrameAt (\<lambda>fr. setFlags fr fl) (i # up) t"
    have "hasFlags (frameAt ?t1 (i # up)) fl"
      using assms by (simp add: Cons frameAt_updateFrameAt hasFlags_setFlags_same)
    moreover have "validRef ?t1 (i # up)" using assms by (simp add: Cons)
    ultimately have "hasFlags (frameAt (propagateFlagsUp fl up ?t1) (i # up)) fl"
      by (rule hasFlags_propagateFlagsUp_mono[rotated])
    with False show ?thesis by (simp add: Cons)
  qed
qed

lemma checkCapability_fails [simp]:
  "capability fr AND cap = 0 \<Longrightarrow> checkCapability fr cap = Inl Unexpected"
  by (simp add: checkCapability_def)

lemma checkCapability_passes [simp]:
  "capability fr AND cap \<noteq> 0 \<Longrightarrow> checkCapability fr cap = Inr ()"
  by (simp add: checkCapability_def)

lemma frameAt_root [simp]: "frameAt t [] = frameOf t"
  by (simp add: frameAt_def nodeAt_def subtreeAt_def)

text \<open>
  C8 (as amended). The setters of \<^verbatim>\<open>x\<close>, \<^verbatim>\<open>y\<close>, \<^verbatim>\<open>matrix\<close>, \<^verbatim>\<open>blendMode\<close>, \<^verbatim>\<open>filters\<close>,
  \<^verbatim>\<open>colorMatrix\<close>, \<^verbatim>\<open>mask\<close> and \<^verbatim>\<open>clip\<close> check the capability first: on a frame that lacks it
  they raise and leave the whole tree as it was, and on a frame that has it they raise
  nothing. The setters of \<^verbatim>\<open>smoothing\<close>, \<^verbatim>\<open>pixelSnapping\<close> and \<^verbatim>\<open>previouslyRenderedAABB\<close> make no
  check (no capability flag exists for them): they never raise and always assign.
\<close>

theorem mutators_check_capability:
  "(capability (frameAt t r) AND AllowMatrixWrite = 0 \<longrightarrow>
      set_x r x t = (Some Unexpected, t) \<and> set_y r y t = (Some Unexpected, t)
      \<and> set_matrix r m t = (Some Unexpected, t))
   \<and> (capability (frameAt t r) AND AllowBlendModeWrite = 0 \<longrightarrow>
        set_blendMode r b t = (Some Unexpected, t))
   \<and> (capability (frameAt t r) AND AllowFiltersWrite = 0 \<longrightarrow>
        set_filters r fs t = (Some Unexpected, t))
   \<and> (capability (frameAt t r) AND AllowColorMatrixWrite = 0 \<longrightarrow>
        set_colorMatrix r cm t = (Some Unexpected, t))
   \<and> (capability (frameAt t r) AND AllowMaskWrite = 0 \<longrightarrow> set_mask r k t = (Some Unexpected, t))
   \<and> (capability (frameAt t r) AND AllowClipWrite = 0 \<longrightarrow> set_clip r n t = (Some Unexpected, t))
   \<and> (capability (frameAt t r) AND AllowMatrixWrite \<noteq> 0 \<longrightarrow>
        fst (set_x r x t) = None \<and> fst (set_y r y t) = None \<and> fst (set_matrix r m t) = None)
   \<and> (capability (frameAt t r) AND AllowBlendModeWrite \<noteq> 0 \<longrightarrow> fst (set_blendMode r b t) = None)
   \<and> (capability (frameAt t r) AND AllowFiltersWrite \<noteq> 0 \<longrightarrow> fst (set_filters r fs t) = None)
   \<and> (capability (frameAt t r) AND AllowColorMatrixWrite \<noteq> 0 \<longrightarrow>
        fst (set_colorMatrix r cm t) = None)
   \<and> (capability (frameAt t r) AND AllowMaskWrite \<noteq> 0 \<longrightarrow> fst (set_mask r k t) = None)
   \<and> (capability (frameAt t r) AND AllowClipWrite \<noteq> 0 \<longrightarrow> fst (set_clip r n t) = None)
   \<and> fst (set_smoothing r s t) = None \<and> fst (set_pixelSnapping r p t) = None
   \<and> fst (set_previouslyRenderedAABB r box t) = None
   \<and> (validRef t r \<longrightarrow>
        smoothing (frameAt (snd (set_smoothing r s t)) r) = s
        \<and> pixelSnapping (frameAt (snd (set_pixelSnapping r p t)) r) = p
        \<and> previouslyRenderedAABB (frameAt (snd (set_previouslyRenderedAABB r box t)) r) = box)"
  by (simp add: set_x_def set_y_def set_matrix_def set_blendMode_def set_filters_def
      set_colorMatrix_def set_mask_def set_clip_def set_smoothing_def set_pixelSnapping_def
      set_previouslyRenderedAABB_def frameAt_updateFrameAt invalidate_def setFlags_def Let_def)

text \<open>
  A new frame stripped of every capability keeps its matrix, clip and mask when their setters
  raise; its \<^verbatim>\<open>smoothing\<close> setter assigns.
\<close>

theorem mutators_check_capability_witness:
  "capability (frameAt lockedFrame []) AND AllowMatrixWrite = 0
   \<and> set_x [] 5 lockedFrame = (Some Unexpected, lockedFrame)
   \<and> set_clip [] 2 lockedFrame = (Some Unexpected, lockedFrame)
   \<and> set_mask [] None lockedFrame = (Some Unexpected, lockedFrame)
   \<and> fst (set_smoothing [] Smoothing_Always lockedFrame) = None
   \<and> smoothing (frameAt (snd (set_smoothing [] Smoothing_Always lockedFrame)) []) = Smoothing_Always"
proof -
  have h: "capability (frameAt lockedFrame []) AND AllowMatrixWrite = 0"
    "capability (frameAt lockedFrame []) AND AllowClipWrite = 0"
    "capability (frameAt lockedFrame []) AND AllowMaskWrite = 0"
    "validRef lockedFrame []"
    by (simp_all add: lockedFrame_def)
  from h mutators_check_capability [where t = lockedFrame and r = "[]" and x = 5 and n = 2
      and k = None and s = Smoothing_Always]
  show ?thesis by blast
qed

text \<open>
  The claim as stated fails for \<^verbatim>\<open>smoothing\<close>: on a frame with no capability at all the
  setter raises nothing, assigns the value and marks the frame dirty.
\<close>

theorem mutators_check_capability_counterexample:
  "capability (frameAt lockedFrame []) = 0
   \<and> set_smoothing [] Smoothing_Always lockedFrame =
       (None, PlainFrame ((newFrame 0 1 ())
              \<lparr>capability := 0, smoothing := Smoothing_Always,
               flags := flags (newFrame 0 1 ()) OR Dirty\<rparr>))"
  by (simp add: lockedFrame_def set_smoothing_def updateFrameAt_def invalidate_def setFlags_def)

text \<open>\<^verbatim>\<open>value | 0\<close> wraps: the \<^verbatim>\<open>blendMode\<close> setter stores \<open>2 ^ 32 + 1\<close> as 1.\<close>

lemma toInt32_wraps: "toInt32 4294967297 = 1" "toInt32 3 = 3" "toInt32 (- 1) = - 1"
  by (simp_all add: toInt32_def)

text \<open>
  C10 (as amended). On a frame with the clip-write capability the \<^verbatim>\<open>clip\<close> setter only assigns
  \<^verbatim>\<open>_clip\<close>: the tree keeps its shape, the frame keeps every other field (flags, matrices,
  colour matrices, mask) and every other frame is unchanged. The \<^verbatim>\<open>matrix\<close> setter, by
  contrast, leaves \<^verbatim>\<open>InvalidConcatenatedMatrix\<close> on the frame and \<^verbatim>\<open>InvalidBounds\<close> and
  \<^verbatim>\<open>InvalidPaint\<close> on its parent, and the \<^verbatim>\<open>colorMatrix\<close> setter leaves
  \<^verbatim>\<open>InvalidConcatenatedColorMatrix\<close> on the frame and \<^verbatim>\<open>InvalidPaint\<close> on its parent. The \<^verbatim>\<open>mask\<close>
  setter propagates nothing: it leaves \<^verbatim>\<open>Dirty\<close> on the frame and \<^verbatim>\<open>Dirty\<close> and \<^verbatim>\<open>IsMask\<close> on the
  new mask, and every frame other than the frame, its new mask and its old mask is
  unchanged.
\<close>

theorem set_clip_frame_effect:
  "(capability (frameAt t r) AND AllowClipWrite \<noteq> 0 \<longrightarrow>
      set_clip r v t = (None, updateFrameAt (\<lambda>fr. fr\<lparr>clip := v\<rparr>) r t))
   \<and> validRef (updateFrameAt (\<lambda>fr. fr\<lparr>clip := v\<rparr>) r t) q = validRef t q
   \<and> (validRef t q \<longrightarrow>
        frameAt (updateFrameAt (\<lambda>fr. fr\<lparr>clip := v\<rparr>) r t) q =
          (if q = r then (frameAt t q)\<lparr>clip := v\<rparr> else frameAt t q))
   \<and> (validRef t (i # up) \<and> set_matrix (i # up) m t = (None, t') \<longrightarrow>
        hasFlags (frameAt t' (i # up)) InvalidConcatenatedMatrix
        \<and> hasFlags (frameAt t' up) InvalidBounds \<and> hasFlags (frameAt t' up) InvalidPaint)
   \<and> (validRef t (i # up) \<and> set_colorMatrix (i # up) cm t = (None, t') \<longrightarrow>
        hasFlags (frameAt t' (i # up)) InvalidConcatenatedColorMatrix
        \<and> hasFlags (frameAt t' up) InvalidPaint)
   \<and> (validRef t r \<and> validRef t k \<and> set_mask r (Some k) t = (None, t') \<longrightarrow>
        hasFlags (frameAt t' r) Dirty \<and> hasFlags (frameAt t' k) Dirty
        \<and> hasFlags (frameAt t' k) IsMask)
   \<and> (set_mask r mk t = (None, t') \<longrightarrow>
        validRef t' q = validRef t q
        \<and> (validRef t q \<and> q \<noteq> r \<and> Some q \<noteq> mk \<and> Some q \<noteq> mask_frame (frameAt t r) \<longrightarrow>
             frameAt t' q = frameAt t q))"
proof (intro conjI impI)
  assume "capability (frameAt t r) AND AllowClipWrite \<noteq> 0"
  then show "set_clip r v t = (None, updateFrameAt (\<lambda>fr. fr\<lparr>clip := v\<rparr>) r t)"
    by (simp add: set_clip_def)
next
  show "validRef (updateFrameAt (\<lambda>fr. fr\<lparr>clip := v\<rparr>) r t) q = validRef t q" by simp
next
  assume "validRef t q"
  then show "frameAt (updateFrameAt (\<lambda>fr. fr\<lparr>clip := v\<rparr>) r t) q =
          (if q = r then (frameAt t q)\<lparr>clip := v\<rparr> else frameAt t q)"
    by (simp add: frameAt_updateFrameAt)
next
  assume a: "validRef t (i # up) \<and> set_matrix (i # up) m t = (None, t')"
  let ?t0 = "updateFrameAt (\<lambda>fr. fr\<lparr>matrix := m\<rparr>) (i # up) t"
  let ?t1 = "propagateFlagsDown (InvalidConcatenatedMatrix OR InvalidInvertedConcatenatedMatrix) (i # up) ?t0"
  let ?t2 = "propagateFlagsUp InvalidBounds up ?t1"
  from a have t': "t' = propagateFlagsUp InvalidPaint up ?t2"
    by (auto simp: set_matrix_def invalidatePosition_def invalidateParentPaint_def invalidateBounds_def
        Let_def split: sum.splits)
  from a have v: "validRef t (i # up)" "validRef t up" by (auto dest: validRef_parent)
  have vt1: "validRef ?t1 (i # up)" "validRef ?t1 up" using v by simp_all
  have vt2: "validRef ?t2 (i # up)" "validRef ?t2 up" using v by simp_all
  have h1: "hasFlags (frameAt ?t1 (i # up)) InvalidConcatenatedMatrix"
    using v by (simp add: frameAt_propagateFlagsDown hasFlags_setFlags_subset flag_constants)
  have h2: "hasFlags (frameAt ?t2 (i # up)) InvalidConcatenatedMatrix"
    by (rule hasFlags_propagateFlagsUp_mono[OF vt1(1) h1])
  show "hasFlags (frameAt t' (i # up)) InvalidConcatenatedMatrix"
    unfolding t' by (rule hasFlags_propagateFlagsUp_mono[OF vt2(1) h2])
  have h3: "hasFlags (frameAt ?t2 up) InvalidBounds"
    by (rule hasFlags_propagateFlagsUp_self[OF vt1(2)])
  show "hasFlags (frameAt t' up) InvalidBounds"
    unfolding t' by (rule hasFlags_propagateFlagsUp_mono[OF vt2(2) h3])
  show "hasFlags (frameAt t' up) InvalidPaint"
    unfolding t' by (rule hasFlags_propagateFlagsUp_self[OF vt2(2)])
next
  assume a: "validRef t (i # up) \<and> set_colorMatrix (i # up) cm t = (None, t')"
  let ?t0 = "updateFrameAt (\<lambda>fr. fr\<lparr>colorMatrix := cm\<rparr>) (i # up) t"
  let ?t1 = "propagateFlagsDown InvalidConcatenatedColorMatrix (i # up) ?t0"
  from a have t': "t' = propagateFlagsUp InvalidPaint up ?t1"
    by (auto simp: set_colorMatrix_def invalidateParentPaint_def split: sum.splits)
  from a have v: "validRef t (i # up)" "validRef t up" by (auto dest: validRef_parent)
  have vt1: "validRef ?t1 (i # up)" "validRef ?t1 up" using v by simp_all
  have h1: "hasFlags (frameAt ?t1 (i # up)) InvalidConcatenatedColorMatrix"
    using v by (simp add: frameAt_propagateFlagsDown hasFlags_setFlags_same)
  show "hasFlags (frameAt t' (i # up)) InvalidConcatenatedColorMatrix"
    unfolding t' by (rule hasFlags_propagateFlagsUp_mono[OF vt1(1) h1])
  show "hasFlags (frameAt t' up) InvalidPaint"
    unfolding t' by (rule hasFlags_propagateFlagsUp_self[OF vt1(2)])
next
  assume a: "validRef t r \<and> validRef t k \<and> set_mask r (Some k) t = (None, t')"
  define t1 where "t1 = (case mask_frame (frameAt t r) of
                       None \<Rightarrow> t
                     | Some old \<Rightarrow>
                         if Some old \<noteq> Some k then updateFrameAt (\<lambda>fr. removeFlags fr IsMask) old t
                         else t)"
  define t2 where "t2 = updateFrameAt (\<lambda>fr. fr\<lparr>mask_frame := Some k\<rparr>) r t1"
  define t3 where "t3 = updateFrameAt (\<lambda>fr. invalidate (setFlags fr IsMask)) k t2"
  from a have t': "t' = updateFrameAt invalidate r t3"
    by (auto simp: set_mask_def Let_def t1_def t2_def t3_def split: sum.splits)
  have v1: "validRef t1 q = validRef t q" for q
    by (simp add: t1_def split: option.splits)
  have v3: "validRef t3 r" "validRef t3 k" "validRef t2 k" using a by (simp_all add: t3_def t2_def v1)
  show "hasFlags (frameAt t' r) Dirty"
    unfolding t' using v3 by (simp add: frameAt_updateFrameAt invalidate_def hasFlags_setFlags_same)
  have k3: "hasFlags (frameAt t3 k) Dirty" "hasFlags (frameAt t3 k) IsMask"
    using v3 by (simp_all add: t3_def frameAt_updateFrameAt invalidate_def
        hasFlags_setFlags_same hasFlags_setFlags_mono)
  have keep: "hasFlags (frameAt t' k) fl" if "hasFlags (frameAt t3 k) fl" for fl
    unfolding t' using v3 that
    by (auto simp: frameAt_updateFrameAt invalidate_def hasFlags_setFlags_mono)
  show "hasFlags (frameAt t' k) Dirty" by (rule keep[OF k3(1)])
  show "hasFlags (frameAt t' k) IsMask" by (rule keep[OF k3(2)])
next
  assume a: "set_mask r mk t = (None, t')"
  define t1 where "t1 = (case mask_frame (frameAt t r) of
                       None \<Rightarrow> t
                     | Some old \<Rightarrow>
                         if Some old \<noteq> mk then updateFrameAt (\<lambda>fr. removeFlags fr IsMask) old t
                         else t)"
  define t2 where "t2 = updateFrameAt (\<lambda>fr. fr\<lparr>mask_frame := mk\<rparr>) r t1"
  define t3 where "t3 = (case mk of
                       None \<Rightarrow> t2
                     | Some new \<Rightarrow> updateFrameAt (\<lambda>fr. invalidate (setFlags fr IsMask)) new t2)"
  from a have t': "t' = updateFrameAt invalidate r t3"
    unfolding t3_def t2_def t1_def by (auto simp: set_mask_def Let_def split: sum.splits)
  have v1: "validRef t1 q = validRef t q" for q
    by (simp add: t1_def split: option.splits)
  have v3: "validRef t3 q = validRef t q" for q
    by (simp add: t3_def t2_def v1 split: option.splits)
  show "validRef t' q = validRef t q" by (simp add: t' v3)
  assume b: "validRef t q \<and> q \<noteq> r \<and> Some q \<noteq> mk \<and> Some q \<noteq> mask_frame (frameAt t r)"
  then have f1: "frameAt t1 q = frameAt t q"
    by (auto simp: t1_def frameAt_updateFrameAt split: option.splits)
  from b have f2: "frameAt t2 q = frameAt t1 q"
    by (simp add: t2_def frameAt_updateFrameAt v1)
  from b have f3: "frameAt t3 q = frameAt t2 q"
    by (auto simp: t3_def t2_def frameAt_updateFrameAt v1 split: option.splits)
  from b have "frameAt t' q = frameAt t3 q"
    by (simp add: t' frameAt_updateFrameAt v3)
  with f1 f2 f3 show "frameAt t' q = frameAt t q" by simp
qed

lemma smallTree_refs [simp]:
  "validRef smallTree [0]" "validRef smallTree [1]"
  "frameAt smallTree [0] = newFrame 1 1 ()" "frameAt smallTree [1] = newFrame 2 1 ()"
  by (simp_all add: smallTree_def validRef_def frameAt_def nodeAt_def subtreeAt_def)

lemma newFrame_capability [simp]:
  "capability (newFrame n b c) AND AllowMatrixWrite \<noteq> 0"
  "capability (newFrame n b c) AND AllowColorMatrixWrite \<noteq> 0"
  "capability (newFrame n b c) AND AllowMaskWrite \<noteq> 0"
  "capability (newFrame n b c) AND AllowClipWrite \<noteq> 0"
  by (simp_all add: newFrame_def AllowAllWrite_def AllowMatrixWrite_def AllowColorMatrixWrite_def
      AllowBlendModeWrite_def AllowFiltersWrite_def AllowMaskWrite_def AllowChildrenWrite_def
      AllowClipWrite_def)

text \<open>
  In the container with two new frames: the clip of the first child, the matrix and the
  colour matrix of the first child, and the second child as the mask of the first.
\<close>

theorem set_clip_frame_effect_witness:
  "set_clip [0] 2 smallTree =
     (None, FrameContainer (newFrame 0 1 ())
            [PlainFrame ((newFrame 1 1 ())\<lparr>clip := 2\<rparr>), PlainFrame (newFrame 2 1 ())])
   \<and> frameAt (updateFrameAt (\<lambda>fr. fr\<lparr>clip := 2\<rparr>) [0] smallTree) [1] = newFrame 2 1 ()
   \<and> fst (set_matrix [0] createIdentity smallTree) = None
   \<and> hasFlags (frameAt (snd (set_matrix [0] createIdentity smallTree)) [0]) InvalidConcatenatedMatrix
   \<and> hasFlags (frameAt (snd (set_matrix [0] createIdentity smallTree)) []) InvalidBounds
   \<and> hasFlags (frameAt (snd (set_matrix [0] createIdentity smallTree)) []) InvalidPaint
   \<and> fst (set_colorMatrix [0] () smallTree) = None
   \<and> hasFlags (frameAt (snd (set_colorMatrix [0] () smallTree)) [0]) InvalidConcatenatedColorMatrix
   \<and> hasFlags (frameAt (snd (set_colorMatrix [0] () smallTree)) []) InvalidPaint
   \<and> fst (set_mask [0] (Some [1]) smallTree) = None
   \<and> hasFlags (frameAt (snd (set_mask [0] (Some [1]) smallTree)) [0]) Dirty
   \<and> hasFlags (frameAt (snd (set_mask [0] (Some [1]) smallTree)) [1]) Dirty
   \<and> hasFlags (frameAt (snd (set_mask [0] (Some [1]) smallTree)) [1]) IsMask
   \<and> frameAt (snd (set_mask [0] (Some [1]) smallTree)) [] = frameAt smallTree []"
proof -
  let ?tm = "snd (set_matrix [0] createIdentity smallTree)"
  let ?tc = "snd (set_colorMatrix [0] () smallTree)"
  let ?tk = "snd (set_mask [0] (Some [1]) smallTree)"
  have u: "updateFrameAt (\<lambda>fr. fr\<lparr>clip := 2\<rparr>) [0] smallTree =
      FrameContainer (newFrame 0 1 ())
            [PlainFrame ((newFrame 1 1 ())\<lparr>clip := 2\<rparr>), PlainFrame (newFrame 2 1 ())]"
    by (simp add: updateFrameAt_def smallTree_def)
  have fm: "fst (set_matrix [0] createIdentity smallTree) = None" by (simp add: set_matrix_def)
  have fc: "fst (set_colorMatrix [0] () smallTree) = None" by (simp add: set_colorMatrix_def)
  have fk: "fst (set_mask [0] (Some [1]) smallTree) = None" by (simp add: set_mask_def Let_def)
  from fm have tm: "set_matrix [0] createIdentity smallTree = (None, ?tm)"
    by (simp add: prod_eq_iff)
  from fc have tc: "set_colorMatrix [0] () smallTree = (None, ?tc)"
    by (simp add: prod_eq_iff)
  from fk have tk: "set_mask [0] (Some [1]) smallTree = (None, ?tk)"
    by (simp add: prod_eq_iff)
  have h: "capability (frameAt smallTree [0]) AND AllowClipWrite \<noteq> 0" "validRef smallTree [1]"
    "validRef smallTree [0]" "validRef smallTree []"
    by (simp_all del: One_nat_def)
  have m: "mask_frame (frameAt smallTree [0]) = None"
    by (simp add: newFrame_def del: One_nat_def)
  from h tm set_clip_frame_effect [where t = smallTree and r = "[0]" and q = "[1]" and v = 2
      and i = 0 and up = "[]" and m = createIdentity and t' = ?tm]
  have c1: "set_clip [0] 2 smallTree = (None, updateFrameAt (\<lambda>fr. fr\<lparr>clip := 2\<rparr>) [0] smallTree)"
    "frameAt (updateFrameAt (\<lambda>fr. fr\<lparr>clip := 2\<rparr>) [0] smallTree) [1] =
       (if [1] = [0 :: nat] then (frameAt smallTree [1])\<lparr>clip := 2\<rparr> else frameAt smallTree [1])"
    "hasFlags (frameAt ?tm [0]) InvalidConcatenatedMatrix
          \<and> hasFlags (frameAt ?tm []) InvalidBounds \<and> hasFlags (frameAt ?tm []) InvalidPaint"
    by blast+
  from h tc set_clip_frame_effect [where t = smallTree and r = "[0]" and q = "[1]" and v = 2
      and i = 0 and up = "[]" and cm = "()" and t' = ?tc]
  have c2: "hasFlags (frameAt ?tc [0]) InvalidConcatenatedColorMatrix
          \<and> hasFlags (frameAt ?tc []) InvalidPaint"
    by blast
  from h tk set_clip_frame_effect [where t = smallTree and r = "[0]" and q = "[]" and v = 2
      and k = "[1]" and mk = "Some [1]" and t' = ?tk]
  have c3: "hasFlags (frameAt ?tk [0]) Dirty \<and> hasFlags (frameAt ?tk [1]) Dirty
          \<and> hasFlags (frameAt ?tk [1]) IsMask"
    and c4: "validRef smallTree [] \<and> [] \<noteq> [0 :: nat] \<and> Some [] \<noteq> Some [1 :: nat]
             \<and> Some [] \<noteq> mask_frame (frameAt smallTree [0])
             \<longrightarrow> frameAt ?tk [] = frameAt smallTree []"
    by blast+
  from c4 h m have c5: "frameAt ?tk [] = frameAt smallTree []" by simp
  show ?thesis using c1 c2 c3 c5 fm fc fk unfolding u by (simp del: One_nat_def)
qed

text \<open>
  The claim as stated fails for the \<^verbatim>\<open>mask\<close> setter, which propagates no invalidation. With
  the second child as the mask of the first, the parent keeps the flags of a new frame,
  where the \<^verbatim>\<open>matrix\<close> setter of the first child leaves \<^verbatim>\<open>InvalidBounds\<close> and \<^verbatim>\<open>InvalidPaint\<close> on
  it (they are set on a new frame; here the parent had them removed before); and the \<^verbatim>\<open>mask\<close>
  setter of the container leaves its children as they were.
\<close>

theorem set_clip_frame_effect_counterexample:
  "snd (set_mask [0] (Some [1])
          (FrameContainer ((newFrame 0 1 ())\<lparr>flags := Visible\<rparr>)
             [PlainFrame (newFrame 1 1 ()), PlainFrame (newFrame 2 1 ())]))
     = FrameContainer ((newFrame 0 1 ())\<lparr>flags := Visible\<rparr>)
         [PlainFrame ((newFrame 1 1 ())\<lparr>mask_frame := Some [1],
                                         flags := flags (newFrame 1 1 ()) OR Dirty\<rparr>),
          PlainFrame ((newFrame 2 1 ())\<lparr>flags := (flags (newFrame 2 1 ()) OR IsMask) OR Dirty\<rparr>)]
   \<and> flags (frameAt (snd (set_matrix [0] createIdentity
          (FrameContainer ((newFrame 0 1 ())\<lparr>flags := Visible\<rparr>)
             [PlainFrame (newFrame 1 1 ()), PlainFrame (newFrame 2 1 ())]))) [])
     = (Visible OR InvalidBounds) OR InvalidPaint
   \<and> snd (set_mask [] None smallTree)
     = FrameContainer ((newFrame 0 1 ())\<lparr>flags := flags (newFrame 0 1 ()) OR Dirty\<rparr>)
         [PlainFrame (newFrame 1 1 ()), PlainFrame (newFrame 2 1 ())]"
  by (simp add: set_mask_def set_matrix_def smallTree_def checkCapability_def updateFrameAt_def
      invalidatePosition_def invalidateBounds_def invalidateParentPaint_def propagateFlagsDown_def
      invalidate_def setFlags_def hasFlags_def frameAt_def nodeAt_def subtreeAt_def Let_def
      newFrame_def AllowAllWrite_def AllowMatrixWrite_def AllowColorMatrixWrite_def
      AllowBlendModeWrite_def AllowFiltersWrite_def AllowMaskWrite_def AllowChildrenWrite_def
      AllowClipWrite_def Visible_def InvalidPaint_def InvalidBounds_def
      InvalidConcatenatedMatrix_def InvalidInvertedConcatenatedMatrix_def
      InvalidConcatenatedColorMatrix_def Dirty_def IsMask_def)

section \<open>Properties of the concatenated matrix\<close>

subsection \<open>The references of a tree\<close>

lemma subtreePath_child:
  "subtreePath (FrameContainer fr cs) (rev (q @ [j])) =
     (if j < length cs then subtreePath (cs ! j) (rev q) else None)"
  by simp

lemma set_refsBelow:
  fixes n :: "'c FrameTree" and cs :: "'c FrameTree list"
  shows "set (refsBelow r0 n) = {q @ r0 | q. subtreePath n (rev q) \<noteq> None}"
  and "set (refsOfChildren r0 i cs) =
     {q @ [i + j] @ r0 | j q. j < length cs \<and> subtreePath (cs ! j) (rev q) \<noteq> None}"
proof (induction r0 n and r0 i cs rule: refsBelow_refsOfChildren.induct)
  case (1 r fr)
  have "subtreePath (PlainFrame fr) (rev q) \<noteq> None \<longleftrightarrow> q = []" for q
    by (cases "rev q") auto
  then show ?case by auto
next
  case (2 r fr cs)
  have "subtreePath (FrameContainer fr cs) (rev q) \<noteq> None \<longleftrightarrow>
          q = [] \<or> (\<exists>q' j. q = q' @ [j] \<and> j < length cs \<and> subtreePath (cs ! j) (rev q') \<noteq> None)" for q
  proof (cases q rule: rev_cases)
    case Nil
    then show ?thesis by simp
  next
    case (snoc q' j)
    then show ?thesis by auto
  qed
  then have "{q @ r | q. subtreePath (FrameContainer fr cs) (rev q) \<noteq> None} =
     insert r {q' @ [j] @ r | j q'. j < length cs \<and> subtreePath (cs ! j) (rev q') \<noteq> None}"
    by auto
  with 2 show ?case by simp
next
  case (3 r i)
  show ?case by simp
next
  case (4 r i c cs)
  have "{q @ [i + j] @ r | j q. j < length (c # cs) \<and> subtreePath ((c # cs) ! j) (rev q) \<noteq> None}
      = {q @ [i] @ r | q. subtreePath c (rev q) \<noteq> None}
        \<union> {q @ [Suc i + j] @ r | j q. j < length cs \<and> subtreePath (cs ! j) (rev q) \<noteq> None}"
    (is "?L = ?A \<union> ?B")
  proof (intro set_eqI iffI)
    fix x assume "x \<in> ?L"
    then obtain j q where x: "x = q @ [i + j] @ r" "j < length (c # cs)"
      "subtreePath ((c # cs) ! j) (rev q) \<noteq> None" by blast
    show "x \<in> ?A \<union> ?B"
    proof (cases j)
      case 0
      with x show ?thesis by auto
    next
      case (Suc j')
      with x have "x = q @ [Suc i + j'] @ r" "j' < length cs" "subtreePath (cs ! j') (rev q) \<noteq> None"
        by auto
      then show ?thesis by blast
    qed
  next
    fix x assume "x \<in> ?A \<union> ?B"
    then show "x \<in> ?L"
    proof
      assume "x \<in> ?A"
      then obtain q where "x = q @ [i + 0] @ r" "subtreePath ((c # cs) ! 0) (rev q) \<noteq> None" by auto
      then show ?thesis by (intro CollectI exI[of _ 0] exI[of _ q]) simp
    next
      assume "x \<in> ?B"
      then obtain j q where "x = q @ [i + Suc j] @ r" "Suc j < length (c # cs)"
        "subtreePath ((c # cs) ! Suc j) (rev q) \<noteq> None" by auto
      then show ?thesis by (intro CollectI exI[of _ "Suc j"] exI[of _ q]) simp
    qed
  qed
  with 4 show ?case by simp
qed

lemma set_allRefs: "set (allRefs t) = {r. validRef t r}"
  by (simp add: allRefs_def set_refsBelow validRef_def subtreeAt_def)

subsection \<open>The cache invariant, reference by reference\<close>

lemma strict_suffix_drop:
  "strict_suffix a r \<longleftrightarrow> (\<exists>k. 1 \<le> k \<and> k \<le> length r \<and> a = drop k r)"
proof
  assume "strict_suffix a r"
  then obtain us where us: "r = us @ a" "us \<noteq> []" by (auto simp: strict_suffix_def suffix_def)
  then have "a = drop (length us) r" "1 \<le> length us" "length us \<le> length r"
    by (auto simp: Suc_le_eq)
  then show "\<exists>k. 1 \<le> k \<and> k \<le> length r \<and> a = drop k r" by blast
next
  assume "\<exists>k. 1 \<le> k \<and> k \<le> length r \<and> a = drop k r"
  then obtain k where k: "1 \<le> k" "k \<le> length r" "a = drop k r" by blast
  then have "suffix a r" by (simp add: suffix_drop)
  moreover from k have "length a < length r" by simp
  ultimately show "strict_suffix a r" by (auto simp: strict_suffix_def)
qed

lemma validCache_iff:
  "validCache pm t r \<longleftrightarrow>
     (\<not> hasFlags (frameAt t r) InvalidConcatenatedMatrix \<longrightarrow>
        concatenatedMatrix (frameAt t r) = concatenation pm t r
        \<and> (\<forall>a. strict_suffix a r \<longrightarrow> \<not> hasFlags (frameAt t a) InvalidConcatenatedMatrix))"
proof -
  let ?P = "\<lambda>a. \<not> hasFlags (frameAt t a) InvalidConcatenatedMatrix"
  have "list_all (\<lambda>k. ?P (drop k r)) [1..<Suc (length r)] \<longleftrightarrow> (\<forall>a. strict_suffix a r \<longrightarrow> ?P a)"
  proof
    assume L: "list_all (\<lambda>k. ?P (drop k r)) [1..<Suc (length r)]"
    show "\<forall>a. strict_suffix a r \<longrightarrow> ?P a"
    proof (intro allI impI)
      fix a assume "strict_suffix a r"
      then obtain k where k: "1 \<le> k" "k \<le> length r" "a = drop k r"
        by (auto simp: strict_suffix_drop)
      then have "k \<in> set [1..<Suc (length r)]" by auto
      with L have "?P (drop k r)" unfolding list_all_iff by blast
      with k show "?P a" by blast
    qed
  next
    assume R: "\<forall>a. strict_suffix a r \<longrightarrow> ?P a"
    show "list_all (\<lambda>k. ?P (drop k r)) [1..<Suc (length r)]"
      unfolding list_all_iff
    proof
      fix k assume "k \<in> set [1..<Suc (length r)]"
      then have "1 \<le> k" "k \<le> length r" by auto
      then have "strict_suffix (drop k r) r" unfolding strict_suffix_drop by blast
      with R show "?P (drop k r)" by blast
    qed
  qed
  then show ?thesis unfolding validCache_def by blast
qed

lemma cacheInvariant_iff:
  "cacheInvariant pm t \<longleftrightarrow> (\<forall>r. validRef t r \<longrightarrow> validCache pm t r)"
  by (simp add: cacheInvariant_def list_all_iff set_allRefs)

lemma concatenation_cong:
  "(\<And>a. suffix a r \<Longrightarrow> matrix (frameAt t' a) = matrix (frameAt t a)) \<Longrightarrow>
     concatenation pm t' r = concatenation pm t r"
proof (induction r)
  case Nil
  then show ?case by simp
next
  case (Cons i up)
  have "concatenation pm t' up = concatenation pm t up"
    by (rule Cons.IH) (simp add: Cons.prems suffix_Cons)
  moreover have "matrix (frameAt t' (i # up)) = matrix (frameAt t (i # up))"
    by (rule Cons.prems) simp
  ultimately show ?case by simp
qed

subsection \<open>getConcatenatedMatrix\<close>

lemma findClosestAncestor_Some:
  "findClosestAncestor t fl on r = Some a \<Longrightarrow> suffix a r \<and> hasFlags (frameAt t a) fl = on"
proof (induction r)
  case Nil
  then show ?case by (auto split: if_splits)
next
  case (Cons i up)
  then show ?case by (auto split: if_splits simp: suffix_Cons)
qed

lemma findClosestAncestor_here:
  "hasFlags (frameAt t r) fl = on \<Longrightarrow> findClosestAncestor t fl on r = Some r"
  by (cases r) simp_all

lemma ancestorsUpTo_here: "ancestorsUpTo r (Some r) = ([], Some r)"
  by (cases r) simp_all

lemma concatenate_snoc:
  "concatenate release pm (xs @ [x]) m t =
     (case concatenate release pm xs m t of
        Inl e \<Rightarrow> Inl e
      | Inr (m1, t1) \<Rightarrow> concatenate release pm [x] m1 t1)"
  by (induction xs arbitrary: m t) (simp_all add: Let_def)

lemma concatenate_one:
  assumes "hasFlags (frameAt t r) InvalidConcatenatedMatrix"
  shows "concatenate release pm [r] m t =
     Inr (pm m (matrix (frameAt t r)),
          updateFrameAt
            (\<lambda>fr. removeFlags (fr\<lparr>concatenatedMatrix := pm m (matrix (frameAt t r))\<rparr>)
               InvalidConcatenatedMatrix) r t)"
  using assms by (simp add: Let_def)

lemma suffix_Cons_iff: "suffix q (i # up) \<longleftrightarrow> q = i # up \<or> suffix q up"
  by (auto simp: suffix_Cons)

lemma revalidate_chain:
  fixes t :: "'c FrameTree"
  assumes inv: "\<And>q. validRef t q \<Longrightarrow> validCache pm t q"
  shows "validRef t r \<Longrightarrow> hasFlags (frameAt t r) InvalidConcatenatedMatrix \<Longrightarrow>
      \<exists>path t'.
        ancestorsUpTo r (findClosestAncestor t InvalidConcatenatedMatrix False r)
          = (path, findClosestAncestor t InvalidConcatenatedMatrix False r)
        \<and> concatenate release pm (rev path)
            (case findClosestAncestor t InvalidConcatenatedMatrix False r of
               Some a \<Rightarrow> concatenatedMatrix (frameAt t a) | None \<Rightarrow> createIdentity) t
          = Inr (concatenation pm t r, t')
        \<and> (\<forall>q. validRef t' q = validRef t q)
        \<and> (\<forall>q. validRef t q \<longrightarrow>
              frameAt t' q =
                (if suffix q r \<and> hasFlags (frameAt t q) InvalidConcatenatedMatrix
                 then revalidated pm t q else frameAt t q))"
proof (induction r)
  case Nil
  let ?g = "\<lambda>fr :: 'c Frame. removeFlags (fr\<lparr>concatenatedMatrix := pm createIdentity (matrix (frameAt t []))\<rparr>)
               InvalidConcatenatedMatrix"
  let ?t' = "updateFrameAt ?g [] t"
  from Nil have a: "findClosestAncestor t InvalidConcatenatedMatrix False [] = None" by simp
  have 1: "ancestorsUpTo [] None = ([[]], None)" by simp
  have 2: "concatenate release pm (rev [[]]) createIdentity t = Inr (concatenation pm t [], ?t')"
    using Nil(2) concatenate_one[of t "[]" release pm createIdentity] by simp
  have 3: "frameAt ?t' q =
          (if suffix q [] \<and> hasFlags (frameAt t q) InvalidConcatenatedMatrix
           then revalidated pm t q else frameAt t q)" if "validRef t q" for q
    using that Nil(2) by (auto simp: frameAt_updateFrameAt revalidated_def)
  show ?case unfolding a using 1 2 3 by (intro exI[of _ "[[]]"] exI[of _ ?t']) simp
next
  case (Cons i up)
  let ?r = "i # up"
  let ?a = "findClosestAncestor t InvalidConcatenatedMatrix False up"
  let ?m0 = "case ?a of Some a \<Rightarrow> concatenatedMatrix (frameAt t a) | None \<Rightarrow> createIdentity"
  from Cons.prems have vup: "validRef t up" by (auto dest: validRef_parent)
  from Cons.prems have a: "findClosestAncestor t InvalidConcatenatedMatrix False ?r = ?a" by simp
  show ?case
  proof (cases "hasFlags (frameAt t up) InvalidConcatenatedMatrix")
    case False
    then have au: "?a = Some up" by (simp add: findClosestAncestor_here)
    from inv[OF vup] False have cu: "concatenatedMatrix (frameAt t up) = concatenation pm t up"
      and clear: "\<And>b. strict_suffix b up \<Longrightarrow> \<not> hasFlags (frameAt t b) InvalidConcatenatedMatrix"
      by (auto simp: validCache_iff)
    let ?g = "\<lambda>fr :: 'c Frame. removeFlags (fr\<lparr>concatenatedMatrix := concatenation pm t ?r\<rparr>)
               InvalidConcatenatedMatrix"
    let ?t' = "updateFrameAt ?g ?r t"
    have 1: "ancestorsUpTo ?r (Some up) = ([?r], Some up)"
      by (simp add: ancestorsUpTo_here)
    have 2: "concatenate release pm (rev [?r]) (concatenatedMatrix (frameAt t up)) t
               = Inr (concatenation pm t ?r, ?t')"
      using Cons.prems(2) concatenate_one[of t ?r release pm "concatenatedMatrix (frameAt t up)"] cu
      by simp
    have 3: "frameAt ?t' q =
          (if suffix q ?r \<and> hasFlags (frameAt t q) InvalidConcatenatedMatrix
           then revalidated pm t q else frameAt t q)" if "validRef t q" for q
    proof (cases "q = ?r")
      case True
      with that Cons.prems(2) show ?thesis by (simp add: frameAt_updateFrameAt revalidated_def)
    next
      case ne: False
      have "\<not> (suffix q ?r \<and> hasFlags (frameAt t q) InvalidConcatenatedMatrix)"
      proof
        assume s: "suffix q ?r \<and> hasFlags (frameAt t q) InvalidConcatenatedMatrix"
        with ne have "suffix q up" by (simp add: suffix_Cons_iff)
        then have "q = up \<or> strict_suffix q up" by (auto simp: strict_suffix_def)
        with False clear s show False by blast
      qed
      with that ne show ?thesis by (auto simp: frameAt_updateFrameAt)
    qed
    show ?thesis unfolding a au using 1 2 3
      by (intro exI[of _ "[?r]"] exI[of _ ?t']) simp
  next
    case True
    from Cons.IH[OF vup True] obtain path t1 where
      p: "ancestorsUpTo up ?a = (path, ?a)"
      and c: "concatenate release pm (rev path) ?m0 t = Inr (concatenation pm t up, t1)"
      and v1: "\<And>q. validRef t1 q = validRef t q"
      and f1: "\<And>q. validRef t q \<Longrightarrow> frameAt t1 q =
                (if suffix q up \<and> hasFlags (frameAt t q) InvalidConcatenatedMatrix
                 then revalidated pm t q else frameAt t q)"
      by blast
    have ne: "?a \<noteq> Some ?r"
    proof
      assume "?a = Some ?r"
      from findClosestAncestor_Some[OF this] have "suffix ?r up" by simp
      then have "length ?r \<le> length up" by (rule suffix_length_le)
      then show False by simp
    qed
    have nsuf: "\<not> suffix ?r up"
    proof
      assume "suffix ?r up"
      then have "length ?r \<le> length up" by (rule suffix_length_le)
      then show False by simp
    qed
    have r1: "frameAt t1 ?r = frameAt t ?r" using f1[OF Cons.prems(1)] nsuf by simp
    let ?g = "\<lambda>fr :: 'c Frame. removeFlags (fr\<lparr>concatenatedMatrix := concatenation pm t ?r\<rparr>)
               InvalidConcatenatedMatrix"
    let ?t' = "updateFrameAt ?g ?r t1"
    have 1: "ancestorsUpTo ?r ?a = (?r # path, ?a)"
      using ne[symmetric] by (simp add: p)
    have step: "concatenate release pm [?r] (concatenation pm t up) t1 = Inr (concatenation pm t ?r, ?t')"
      using concatenate_one[of t1 ?r release pm "concatenation pm t up"] Cons.prems(2) r1 by simp
    have 2: "concatenate release pm (rev (?r # path)) ?m0 t = Inr (concatenation pm t ?r, ?t')"
      using c step by (simp add: concatenate_snoc)
    have 3: "frameAt ?t' q =
          (if suffix q ?r \<and> hasFlags (frameAt t q) InvalidConcatenatedMatrix
           then revalidated pm t q else frameAt t q)" if "validRef t q" for q
    proof (cases "q = ?r")
      case True
      with that Cons.prems v1 r1 show ?thesis
        by (simp add: frameAt_updateFrameAt revalidated_def)
    next
      case False
      with that v1 f1[OF that] show ?thesis
        by (simp add: frameAt_updateFrameAt suffix_Cons_iff)
    qed
    show ?thesis unfolding a using 1 2 3 v1
      by (intro exI[of _ "?r # path"] exI[of _ ?t']) simp
  qed
qed

lemma getConcatenatedMatrix_result:
  fixes t :: "'c FrameTree"
  assumes inv: "\<And>q. validRef t q \<Longrightarrow> validCache pm t q" and v: "validRef t r"
  shows "\<exists>t'. getConcatenatedMatrix release pm r t = Inr (concatenation pm t r, t')
        \<and> (\<forall>q. validRef t' q = validRef t q)
        \<and> (\<forall>q. validRef t q \<longrightarrow>
              frameAt t' q =
                (if suffix q r \<and> hasFlags (frameAt t q) InvalidConcatenatedMatrix
                 then revalidated pm t q else frameAt t q))"
proof (cases "hasFlags (frameAt t r) InvalidConcatenatedMatrix")
  case True
  let ?a = "findClosestAncestor t InvalidConcatenatedMatrix False r"
  from revalidate_chain[of t pm r release, OF inv v True] obtain path t' where
    p: "ancestorsUpTo r ?a = (path, ?a)"
    and c: "concatenate release pm (rev path)
            (case ?a of Some a \<Rightarrow> concatenatedMatrix (frameAt t a) | None \<Rightarrow> createIdentity) t
          = Inr (concatenation pm t r, t')"
    and v1: "\<forall>q. validRef t' q = validRef t q"
    and f1: "\<forall>q. validRef t q \<longrightarrow> frameAt t' q =
                (if suffix q r \<and> hasFlags (frameAt t q) InvalidConcatenatedMatrix
                 then revalidated pm t q else frameAt t q)"
    by blast
  have g: "getAncestors release (Some r) ?a = Inr path"
    using p by (simp add: getAncestors_def)
  have "frameAt t' r = revalidated pm t r" using f1 v True by simp
  then have cm: "concatenatedMatrix (frameAt t' r) = concatenation pm t r"
    by (simp add: revalidated_def removeFlags_def)
  have "getConcatenatedMatrix release pm r t = Inr (concatenation pm t r, t')"
    using True g c cm by (simp add: getConcatenatedMatrix_def Let_def)
  with v1 f1 show ?thesis by blast
next
  case False
  from inv[OF v] False have cu: "concatenatedMatrix (frameAt t r) = concatenation pm t r"
    and clear: "\<And>b. strict_suffix b r \<Longrightarrow> \<not> hasFlags (frameAt t b) InvalidConcatenatedMatrix"
    by (auto simp: validCache_iff)
  have none: "\<not> (suffix q r \<and> hasFlags (frameAt t q) InvalidConcatenatedMatrix)" for q
  proof
    assume s: "suffix q r \<and> hasFlags (frameAt t q) InvalidConcatenatedMatrix"
    then have "q = r \<or> strict_suffix q r" by (auto simp: strict_suffix_def)
    with False clear s show False by blast
  qed
  have "getConcatenatedMatrix release pm r t = Inr (concatenation pm t r, t)"
    using False cu by (simp add: getConcatenatedMatrix_def)
  with none show ?thesis by (intro exI[of _ t]) auto
qed

text \<open>Frames that agree on their local matrices have the same compositions.\<close>

lemma revalidated_fields:
  "matrix (revalidated pm t q) = matrix (frameAt t q)"
  "concatenatedMatrix (revalidated pm t q) = concatenation pm t q"
  "\<not> hasFlags (revalidated pm t q) InvalidConcatenatedMatrix"
  by (simp_all add: revalidated_def removeFlags_def hasFlags_def andnot_and flag_constants)

lemma revalidation_keeps_invariant:
  fixes t :: "'c FrameTree"
  assumes inv: "\<And>q. validRef t q \<Longrightarrow> validCache pm t q"
    and v1: "\<And>q. validRef t' q = validRef t q"
    and f1: "\<And>q. validRef t q \<Longrightarrow> frameAt t' q =
                (if suffix q r \<and> hasFlags (frameAt t q) InvalidConcatenatedMatrix
                 then revalidated pm t q else frameAt t q)"
    and vr: "validRef t r"
  shows "(\<forall>q. validRef t' q \<longrightarrow> validCache pm t' q)
       \<and> (\<forall>q. validRef t q \<longrightarrow> matrix (frameAt t' q) = matrix (frameAt t q))
       \<and> (\<forall>q. validRef t q \<longrightarrow> concatenation pm t' q = concatenation pm t q)"
proof -
  have m: "matrix (frameAt t' q) = matrix (frameAt t q)" if "validRef t q" for q
    using f1[OF that] by (simp add: revalidated_fields)
  have cc: "concatenation pm t' q = concatenation pm t q" if "validRef t q" for q
  proof (rule concatenation_cong)
    fix a assume "suffix a q"
    with that have "validRef t a" by (rule validRef_suffix)
    then show "matrix (frameAt t' a) = matrix (frameAt t a)" by (rule m)
  qed
  have vc: "validCache pm t' q" if vq': "validRef t' q" for q
  proof -
    from vq' v1 have vq: "validRef t q" by simp
    show ?thesis
    proof (cases "hasFlags (frameAt t' q) InvalidConcatenatedMatrix")
      case True
      then show ?thesis by (simp add: validCache_iff)
    next
      case False
      have anc: "\<not> hasFlags (frameAt t' a) InvalidConcatenatedMatrix" if sa: "strict_suffix a q" for a
      proof -
        from sa have "suffix a q" by (simp add: strict_suffix_def)
        with vq have va: "validRef t a" by (rule validRef_suffix)
        show ?thesis
        proof (cases "suffix q r \<and> hasFlags (frameAt t q) InvalidConcatenatedMatrix")
          case True
          then have "suffix a r" using \<open>suffix a q\<close> by (auto intro: suffix_order.trans)
          then show ?thesis using f1[OF va] inv[OF va]
            by (cases "hasFlags (frameAt t a) InvalidConcatenatedMatrix")
               (simp_all add: revalidated_fields)
        next
          case nr: False
          with f1[OF vq] False have "\<not> hasFlags (frameAt t q) InvalidConcatenatedMatrix" by auto
          with inv[OF vq] sa have "\<not> hasFlags (frameAt t a) InvalidConcatenatedMatrix"
            by (auto simp: validCache_iff)
          with f1[OF va] show ?thesis by simp
        qed
      qed
      have cm: "concatenatedMatrix (frameAt t' q) = concatenation pm t' q"
      proof (cases "suffix q r \<and> hasFlags (frameAt t q) InvalidConcatenatedMatrix")
        case True
        with f1[OF vq] cc[OF vq] show ?thesis by (simp add: revalidated_fields)
      next
        case nr: False
        with f1[OF vq] False have "\<not> hasFlags (frameAt t q) InvalidConcatenatedMatrix"
          and "frameAt t' q = frameAt t q" by auto
        with inv[OF vq] cc[OF vq] show ?thesis by (auto simp: validCache_iff)
      qed
      from cm anc show ?thesis by (simp add: validCache_iff)
    qed
  qed
  from m cc vc show ?thesis by blast
qed

subsection \<open>The setters of the local transform\<close>

lemma setFlags_fields [simp]:
  "matrix (setFlags fr fl) = matrix fr"
  "concatenatedMatrix (setFlags fr fl) = concatenatedMatrix fr"
  "capability (setFlags fr fl) = capability fr"
  by (simp_all add: setFlags_def)

lemma hasFlags_cong: "flags fr' = flags fr \<Longrightarrow> hasFlags fr' fl = hasFlags fr fl"
  by (simp add: hasFlags_def)

lemma propagateFlagsUp_keeps:
  assumes d: "fl AND InvalidConcatenatedMatrix = 0" and v: "validRef t q"
  shows "matrix (frameAt (propagateFlagsUp fl r t) q) = matrix (frameAt t q)"
    and "concatenatedMatrix (frameAt (propagateFlagsUp fl r t) q) = concatenatedMatrix (frameAt t q)"
    and "capability (frameAt (propagateFlagsUp fl r t) q) = capability (frameAt t q)"
    and "hasFlags (frameAt (propagateFlagsUp fl r t) q) InvalidConcatenatedMatrix
           = hasFlags (frameAt t q) InvalidConcatenatedMatrix"
  using frameAt_propagateFlagsUp[OF v, of fl r] hasFlags_setFlags_disjoint[OF d, of "frameAt t q"]
  by auto

lemma validRef_invalidatePosition [simp]:
  "validRef (invalidatePosition r t) q = validRef t q"
  by (cases r) (simp_all add: invalidatePosition_def invalidateParentPaint_def
      invalidateBounds_def Let_def)

lemma frameAt_invalidatePosition:
  assumes v: "validRef t q"
  shows "matrix (frameAt (invalidatePosition r t) q) = matrix (frameAt t q)"
    and "concatenatedMatrix (frameAt (invalidatePosition r t) q) = concatenatedMatrix (frameAt t q)"
    and "capability (frameAt (invalidatePosition r t) q) = capability (frameAt t q)"
    and "hasFlags (frameAt (invalidatePosition r t) q) InvalidConcatenatedMatrix
           \<longleftrightarrow> suffix r q \<or> hasFlags (frameAt t q) InvalidConcatenatedMatrix"
proof -
  let ?fl = "InvalidConcatenatedMatrix OR InvalidInvertedConcatenatedMatrix"
  let ?t1 = "propagateFlagsDown ?fl r t"
  have v1: "validRef ?t1 q" using v by simp
  have d: "frameAt ?t1 q = (if suffix r q then setFlags (frameAt t q) ?fl else frameAt t q)"
    using v by (rule frameAt_propagateFlagsDown)
  have h1: "hasFlags (frameAt ?t1 q) InvalidConcatenatedMatrix
           \<longleftrightarrow> suffix r q \<or> hasFlags (frameAt t q) InvalidConcatenatedMatrix"
    unfolding d by (simp add: hasFlags_setFlags_subset flag_constants)
  have m1: "matrix (frameAt ?t1 q) = matrix (frameAt t q)"
    "concatenatedMatrix (frameAt ?t1 q) = concatenatedMatrix (frameAt t q)"
    "capability (frameAt ?t1 q) = capability (frameAt t q)"
    unfolding d by simp_all
  show "matrix (frameAt (invalidatePosition r t) q) = matrix (frameAt t q)"
    and "concatenatedMatrix (frameAt (invalidatePosition r t) q) = concatenatedMatrix (frameAt t q)"
    and "capability (frameAt (invalidatePosition r t) q) = capability (frameAt t q)"
    and "hasFlags (frameAt (invalidatePosition r t) q) InvalidConcatenatedMatrix
           \<longleftrightarrow> suffix r q \<or> hasFlags (frameAt t q) InvalidConcatenatedMatrix"
    using v1 h1 m1
    by (cases r; simp add: invalidatePosition_def invalidateParentPaint_def
        invalidateBounds_def Let_def propagateFlagsUp_keeps flag_constants)+
qed

text \<open>
  What the \<^verbatim>\<open>x\<close>, \<^verbatim>\<open>y\<close> and \<^verbatim>\<open>matrix\<close> setters have in common: an assignment \<open>g\<close> to the local
  matrix of the frame \<open>r\<close>, then \<^verbatim>\<open>_invalidatePosition\<close>.
\<close>

lemma position_change:
  fixes t :: "'c FrameTree"
  assumes g: "\<And>fr. g fr = fr\<lparr>matrix := h (matrix fr)\<rparr>"
    and t': "t' = invalidatePosition r (updateFrameAt g r t)"
    and v: "validRef t q"
  shows "matrix (frameAt t' q) = (if q = r then h (matrix (frameAt t q)) else matrix (frameAt t q))"
    and "concatenatedMatrix (frameAt t' q) = concatenatedMatrix (frameAt t q)"
    and "capability (frameAt t' q) = capability (frameAt t q)"
    and "hasFlags (frameAt t' q) InvalidConcatenatedMatrix
           \<longleftrightarrow> suffix r q \<or> hasFlags (frameAt t q) InvalidConcatenatedMatrix"
proof -
  let ?u = "updateFrameAt g r t"
  have vu: "validRef ?u q" using v by simp
  have fu: "frameAt ?u q = (if q = r then g (frameAt t q) else frameAt t q)"
    using v by (rule frameAt_updateFrameAt)
  have hu: "hasFlags (frameAt ?u q) InvalidConcatenatedMatrix
              = hasFlags (frameAt t q) InvalidConcatenatedMatrix"
    unfolding fu by (simp add: g hasFlags_def)
  show "matrix (frameAt t' q) = (if q = r then h (matrix (frameAt t q)) else matrix (frameAt t q))"
    unfolding t' frameAt_invalidatePosition(1)[OF vu] fu by (simp add: g)
  show "concatenatedMatrix (frameAt t' q) = concatenatedMatrix (frameAt t q)"
    unfolding t' frameAt_invalidatePosition(2)[OF vu] fu by (simp add: g)
  show "capability (frameAt t' q) = capability (frameAt t q)"
    unfolding t' frameAt_invalidatePosition(3)[OF vu] fu by (simp add: g)
  show "hasFlags (frameAt t' q) InvalidConcatenatedMatrix
           \<longleftrightarrow> suffix r q \<or> hasFlags (frameAt t q) InvalidConcatenatedMatrix"
    unfolding t' frameAt_invalidatePosition(4)[OF vu] hu ..
qed

lemma position_change_invariant:
  fixes t :: "'c FrameTree"
  assumes inv: "\<And>q. validRef t q \<Longrightarrow> validCache pm t q"
    and g: "\<And>fr. g fr = fr\<lparr>matrix := h (matrix fr)\<rparr>"
    and t': "t' = invalidatePosition r (updateFrameAt g r t)"
  shows "\<forall>q. validRef t' q \<longrightarrow> validCache pm t' q"
proof (intro allI impI)
  fix q assume "validRef t' q"
  then have vq: "validRef t q" by (simp add: t')
  note pc = position_change[of g h t' r t, OF g t']
  show "validCache pm t' q"
  proof (cases "hasFlags (frameAt t' q) InvalidConcatenatedMatrix")
    case True
    then show ?thesis by (simp add: validCache_iff)
  next
    case False
    with pc(4)[OF vq] have nr: "\<not> suffix r q"
      and cl: "\<not> hasFlags (frameAt t q) InvalidConcatenatedMatrix" by auto
    from inv[OF vq] cl have cm: "concatenatedMatrix (frameAt t q) = concatenation pm t q"
      and anc: "\<And>a. strict_suffix a q \<Longrightarrow> \<not> hasFlags (frameAt t a) InvalidConcatenatedMatrix"
      by (auto simp: validCache_iff)
    have same: "matrix (frameAt t' a) = matrix (frameAt t a)" if sa: "suffix a q" for a
    proof -
      from vq sa have va: "validRef t a" by (rule validRef_suffix)
      from sa nr have "a \<noteq> r" by auto
      with pc(1)[OF va] show ?thesis by simp
    qed
    have cc: "concatenation pm t' q = concatenation pm t q"
      by (rule concatenation_cong) (rule same)
    have anc': "\<not> hasFlags (frameAt t' a) InvalidConcatenatedMatrix" if sa: "strict_suffix a q" for a
    proof -
      from sa have s: "suffix a q" by (simp add: strict_suffix_def)
      with vq have va: "validRef t a" by (rule validRef_suffix)
      from s nr have "\<not> suffix r a" by (auto intro: suffix_order.trans)
      with pc(4)[OF va] anc[OF sa] show ?thesis by simp
    qed
    from pc(2)[OF vq] cm cc anc' show ?thesis by (simp add: validCache_iff)
  qed
qed

subsection \<open>Sequences of setters and queries\<close>

lemma revalidated_capability [simp]:
  "capability (revalidated pm t q) = capability (frameAt t q)"
  by (simp add: revalidated_def removeFlags_def)

lemma checkCapability_cases:
  "checkCapability fr cap = Inl Unexpected \<or> checkCapability fr cap = Inr ()"
  by (simp add: checkCapability_def)

lemma perform_setter:
  assumes "\<not> isQuery fop"
  shows "\<exists>h. \<forall>t :: 'c FrameTree. perform release pm fop t =
    (case checkCapability (frameAt t (target fop)) AllowMatrixWrite of
       Inl e \<Rightarrow> Inl e
     | Inr u \<Rightarrow> Inr (invalidatePosition (target fop)
                      (updateFrameAt (\<lambda>fr. fr\<lparr>matrix := h (matrix fr)\<rparr>) (target fop) t)))"
proof (cases fop)
  case (SetX r v)
  show ?thesis unfolding SetX by (intro exI[of _ "\<lambda>m. m\<lparr>m_tx := v\<rparr>"]) (simp add: set_x_def outcome_def split: sum.splits)
next
  case (SetY r v)
  show ?thesis unfolding SetY by (intro exI[of _ "\<lambda>m. m\<lparr>m_ty := v\<rparr>"]) (simp add: set_y_def outcome_def split: sum.splits)
next
  case (SetMatrix r v)
  show ?thesis unfolding SetMatrix by (intro exI[of _ "\<lambda>m. v"]) (simp add: set_matrix_def outcome_def split: sum.splits)
next
  case (GetConcatenatedMatrix r)
  with assms show ?thesis by simp
qed

lemma perform_step:
  fixes t :: "'c FrameTree"
  assumes inv: "\<forall>q. validRef t q \<longrightarrow> validCache pm t q"
    and v: "validRef t (target fop)"
    and p: "perform release pm fop t = Inr t'"
  shows "\<forall>q. validRef t' q = validRef t q"
    and "\<forall>q. validRef t' q \<longrightarrow> validCache pm t' q"
    and "\<forall>q. validRef t q \<longrightarrow> capability (frameAt t' q) = capability (frameAt t q)"
    and "\<forall>q. validRef t q \<longrightarrow> isQuery fop \<or> q \<noteq> target fop
           \<longrightarrow> matrix (frameAt t' q) = matrix (frameAt t q)"
proof -
  have "(\<forall>q. validRef t' q = validRef t q)
      \<and> (\<forall>q. validRef t' q \<longrightarrow> validCache pm t' q)
      \<and> (\<forall>q. validRef t q \<longrightarrow> capability (frameAt t' q) = capability (frameAt t q))
      \<and> (\<forall>q. validRef t q \<longrightarrow> isQuery fop \<or> q \<noteq> target fop
           \<longrightarrow> matrix (frameAt t' q) = matrix (frameAt t q))"
  proof (cases "isQuery fop")
    case True
    then obtain r where fop: "fop = GetConcatenatedMatrix r" by (cases fop) simp_all
    from inv have inv': "\<And>q. validRef t q \<Longrightarrow> validCache pm t q" by blast
    from v fop have vr: "validRef t r" by simp
    from getConcatenatedMatrix_result[of t pm r release, OF inv' vr] obtain t1 where
      g: "getConcatenatedMatrix release pm r t = Inr (concatenation pm t r, t1)"
      and v1: "\<And>q. validRef t1 q = validRef t q"
      and f1: "\<And>q. validRef t q \<Longrightarrow> frameAt t1 q =
                (if suffix q r \<and> hasFlags (frameAt t q) InvalidConcatenatedMatrix
                 then revalidated pm t q else frameAt t q)"
      by blast
    from p fop g have t1: "t1 = t'" by simp
    from revalidation_keeps_invariant[of t pm t1 r, OF inv' v1 f1 vr]
    have k: "\<forall>q. validRef t1 q \<longrightarrow> validCache pm t1 q"
      "\<forall>q. validRef t q \<longrightarrow> matrix (frameAt t1 q) = matrix (frameAt t q)"
      by blast+
    have c: "capability (frameAt t1 q) = capability (frameAt t q)" if "validRef t q" for q
      using f1[OF that] by simp
    from v1 k c show ?thesis unfolding t1 by blast
  next
    case False
    from perform_setter[OF False, of release pm] obtain h where
      h: "\<And>t :: 'c FrameTree. perform release pm fop t =
        (case checkCapability (frameAt t (target fop)) AllowMatrixWrite of
           Inl e \<Rightarrow> Inl e
         | Inr u \<Rightarrow> Inr (invalidatePosition (target fop)
                      (updateFrameAt (\<lambda>fr. fr\<lparr>matrix := h (matrix fr)\<rparr>) (target fop) t)))"
      by blast
    let ?g = "\<lambda>fr :: 'c Frame. fr\<lparr>matrix := h (matrix fr)\<rparr>"
    from p h[of t] have t': "t' = invalidatePosition (target fop) (updateFrameAt ?g (target fop) t)"
      by (auto split: sum.splits)
    from inv have inv': "\<And>q. validRef t q \<Longrightarrow> validCache pm t q" by blast
    have g: "\<And>fr. ?g fr = fr\<lparr>matrix := h (matrix fr)\<rparr>" by simp
    note pc = position_change[of ?g h t' "target fop" t, OF g t']
    have i': "\<forall>q. validRef t' q \<longrightarrow> validCache pm t' q"
      by (rule position_change_invariant[of t pm ?g h t' "target fop", OF inv' g t'])
    have vv: "\<forall>q. validRef t' q = validRef t q" by (simp add: t')
    from vv i' pc(1) pc(3) False show ?thesis by simp
  qed
  then show "\<forall>q. validRef t' q = validRef t q"
    and "\<forall>q. validRef t' q \<longrightarrow> validCache pm t' q"
    and "\<forall>q. validRef t q \<longrightarrow> capability (frameAt t' q) = capability (frameAt t q)"
    and "\<forall>q. validRef t q \<longrightarrow> isQuery fop \<or> q \<noteq> target fop
           \<longrightarrow> matrix (frameAt t' q) = matrix (frameAt t q)"
    by blast+
qed

lemma perform_fault:
  fixes t :: "'c FrameTree"
  assumes inv: "\<forall>q. validRef t q \<longrightarrow> validCache pm t q"
    and v: "validRef t (target fop)"
  shows "perform release pm fop t = Inl e
     \<longleftrightarrow> \<not> isQuery fop \<and> e = Unexpected \<and> capability (frameAt t (target fop)) AND AllowMatrixWrite = 0"
proof (cases "isQuery fop")
  case True
  then obtain r where fop: "fop = GetConcatenatedMatrix r" by (cases fop) simp_all
  from inv have inv': "\<And>q. validRef t q \<Longrightarrow> validCache pm t q" by blast
  from v fop have vr: "validRef t r" by simp
  from getConcatenatedMatrix_result[of t pm r release, OF inv' vr] fop True
  show ?thesis by auto
next
  case False
  from perform_setter[OF False, of release pm] obtain h where
    h: "\<And>t :: 'c FrameTree. perform release pm fop t =
        (case checkCapability (frameAt t (target fop)) AllowMatrixWrite of
           Inl e \<Rightarrow> Inl e
         | Inr u \<Rightarrow> Inr (invalidatePosition (target fop)
                      (updateFrameAt (\<lambda>fr. fr\<lparr>matrix := h (matrix fr)\<rparr>) (target fop) t)))"
    by blast
  show ?thesis using False unfolding h[of t]
    by (cases "capability (frameAt t (target fop)) AND AllowMatrixWrite = 0") auto
qed

lemma perform_agree:
  fixes ta tb :: "'c FrameTree"
  assumes inva: "\<forall>q. validRef ta q \<longrightarrow> validCache pm ta q"
    and invb: "\<forall>q. validRef tb q \<longrightarrow> validCache pm tb q"
    and va: "validRef ta (target fop)" and vb: "validRef tb (target fop)"
    and pa: "perform release pm fop ta = Inr ta'"
    and pb: "perform release pm fop tb = Inr tb'"
    and q: "validRef ta q" "validRef tb q"
    and ag: "matrix (frameAt ta q) = matrix (frameAt tb q)"
  shows "matrix (frameAt ta' q) = matrix (frameAt tb' q)"
proof (cases "isQuery fop \<or> q \<noteq> target fop")
  case True
  with perform_step(4)[OF inva va pa] perform_step(4)[OF invb vb pb] q ag
  show ?thesis by auto
next
  case False
  then have nq: "\<not> isQuery fop" and qt: "q = target fop" by simp_all
  from perform_setter[OF nq, of release pm] obtain h where
    h: "\<And>t :: 'c FrameTree. perform release pm fop t =
        (case checkCapability (frameAt t (target fop)) AllowMatrixWrite of
           Inl e \<Rightarrow> Inl e
         | Inr u \<Rightarrow> Inr (invalidatePosition (target fop)
                      (updateFrameAt (\<lambda>fr. fr\<lparr>matrix := h (matrix fr)\<rparr>) (target fop) t)))"
    by blast
  let ?g = "\<lambda>fr :: 'c Frame. fr\<lparr>matrix := h (matrix fr)\<rparr>"
  have g: "\<And>fr. ?g fr = fr\<lparr>matrix := h (matrix fr)\<rparr>" by simp
  from pa h[of ta] have ta': "ta' = invalidatePosition (target fop) (updateFrameAt ?g (target fop) ta)"
    by (auto split: sum.splits)
  from pb h[of tb] have tb': "tb' = invalidatePosition (target fop) (updateFrameAt ?g (target fop) tb)"
    by (auto split: sum.splits)
  from position_change(1)[of ?g h ta' "target fop" ta q, OF g ta' q(1)]
    position_change(1)[of ?g h tb' "target fop" tb q, OF g tb' q(2)] ag qt
  show ?thesis by simp
qed

lemma performAll_append:
  "performAll release pm (xs @ ys) t =
     (case performAll release pm xs t of
        Inl e \<Rightarrow> Inl e
      | Inr t1 \<Rightarrow> performAll release pm ys t1)"
  by (induction xs arbitrary: t) (simp_all split: sum.splits)

lemma performAll_steps:
  fixes t :: "'c FrameTree"
  shows "(\<forall>q. validRef t q \<longrightarrow> validCache pm t q) \<Longrightarrow>
     (\<forall>fop \<in> set ops. validRef t (target fop)) \<Longrightarrow>
     performAll release pm ops t = Inr t' \<Longrightarrow>
     (\<forall>q. validRef t' q = validRef t q)
     \<and> (\<forall>q. validRef t' q \<longrightarrow> validCache pm t' q)
     \<and> (\<forall>q. validRef t q \<longrightarrow> capability (frameAt t' q) = capability (frameAt t q))
     \<and> (\<forall>q. validRef t q \<longrightarrow> (\<forall>fop \<in> set ops. isQuery fop \<or> q \<noteq> target fop)
           \<longrightarrow> matrix (frameAt t' q) = matrix (frameAt t q))"
proof (induction ops arbitrary: t)
  case Nil
  then show ?case by simp
next
  case (Cons fop ops)
  from Cons.prems(3) obtain t1 where p1: "perform release pm fop t = Inr t1"
    and pr: "performAll release pm ops t1 = Inr t'"
    by (auto split: sum.splits)
  from Cons.prems(2) have v: "validRef t (target fop)" by simp
  note st = perform_step[OF Cons.prems(1) v p1]
  from Cons.prems(2) st(1) have vs: "\<forall>fop \<in> set ops. validRef t1 (target fop)" by simp
  from Cons.IH[OF st(2) vs pr] st show ?case by auto
qed

lemma performAll_succeeds:
  fixes t :: "'c FrameTree"
  shows "(\<forall>q. validRef t q \<longrightarrow> validCache pm t q) \<Longrightarrow>
     (\<forall>fop \<in> set ops. validRef t (target fop)) \<Longrightarrow>
     (\<forall>fop \<in> set ops. capability (frameAt t (target fop)) AND AllowMatrixWrite \<noteq> 0) \<Longrightarrow>
     \<exists>t'. performAll release pm ops t = Inr t'"
proof (induction ops arbitrary: t)
  case Nil
  then show ?case by simp
next
  case (Cons fop ops)
  from Cons.prems(2) have v: "validRef t (target fop)" by simp
  from Cons.prems(3) have c: "capability (frameAt t (target fop)) AND AllowMatrixWrite \<noteq> 0" by simp
  obtain t1 where p1: "perform release pm fop t = Inr t1"
  proof (cases "perform release pm fop t")
    case (Inl e)
    with perform_fault[OF Cons.prems(1) v, of release e] c show ?thesis by simp
  next
    case (Inr t1)
    then show ?thesis by (rule that)
  qed
  note st = perform_step[OF Cons.prems(1) v p1]
  from Cons.prems(2) st(1) have vs: "\<forall>fop \<in> set ops. validRef t1 (target fop)" by simp
  from Cons.prems(2,3) st(3)
  have cs: "\<forall>fop \<in> set ops. capability (frameAt t1 (target fop)) AND AllowMatrixWrite \<noteq> 0" by simp
  from Cons.IH[OF st(2) vs cs] p1 show ?case by simp
qed

text \<open>
  Two runs from trees that agree on the local matrices of \<open>r\<close> and of its ancestors, whose
  setter calls on these frames are the same, end in trees that agree on them.
\<close>

lemma performAll_agree:
  fixes ta tb :: "'c FrameTree"
  assumes f: "filter (\<lambda>fop. \<not> isQuery fop \<and> suffix (target fop) r) opsa = fs"
    "filter (\<lambda>fop. \<not> isQuery fop \<and> suffix (target fop) r) opsb = fs"
    and inva: "\<forall>q. validRef ta q \<longrightarrow> validCache pm ta q"
    and invb: "\<forall>q. validRef tb q \<longrightarrow> validCache pm tb q"
    and va: "\<forall>fop \<in> set opsa. validRef ta (target fop)"
    and vb: "\<forall>fop \<in> set opsb. validRef tb (target fop)"
    and r: "validRef ta r" "validRef tb r"
    and pa: "performAll release pm opsa ta = Inr ta'"
    and pb: "performAll release pm opsb tb = Inr tb'"
    and ag: "\<forall>a. suffix a r \<longrightarrow> matrix (frameAt ta a) = matrix (frameAt tb a)"
  shows "\<forall>a. suffix a r \<longrightarrow> matrix (frameAt ta' a) = matrix (frameAt tb' a)"
  using assms
proof (induction fs arbitrary: opsa opsb ta tb)
  case Nil
  have "matrix (frameAt ta' a) = matrix (frameAt ta a)" if s: "suffix a r" for a
  proof -
    from Nil.prems(7) s have v: "validRef ta a" by (rule validRef_suffix)
    have "\<forall>fop \<in> set opsa. isQuery fop \<or> a \<noteq> target fop"
      using Nil.prems(1) s by (auto simp: filter_empty_conv)
    with performAll_steps[OF Nil.prems(3) Nil.prems(5) Nil.prems(9)] v show ?thesis by blast
  qed
  moreover have "matrix (frameAt tb' a) = matrix (frameAt tb a)" if s: "suffix a r" for a
  proof -
    from Nil.prems(8) s have v: "validRef tb a" by (rule validRef_suffix)
    have "\<forall>fop \<in> set opsb. isQuery fop \<or> a \<noteq> target fop"
      using Nil.prems(2) s by (auto simp: filter_empty_conv)
    with performAll_steps[OF Nil.prems(4) Nil.prems(6) Nil.prems(10)] v show ?thesis by blast
  qed
  ultimately show ?case using Nil.prems(11) by simp
next
  case (Cons fop fs)
  let ?P = "\<lambda>fop. \<not> isQuery fop \<and> suffix (target fop) r"
  from Cons.prems(1) obtain ua wa where
    oa: "opsa = ua @ fop # wa" and ua: "\<forall>u \<in> set ua. \<not> ?P u" and wa: "filter ?P wa = fs"
    by (auto simp: filter_eq_Cons_iff)
  from Cons.prems(2) obtain ub wb where
    ob: "opsb = ub @ fop # wb" and ub: "\<forall>u \<in> set ub. \<not> ?P u" and wb: "filter ?P wb = fs"
    by (auto simp: filter_eq_Cons_iff)
  from Cons.prems(9) oa obtain ta1 ta2 where
    a1: "performAll release pm ua ta = Inr ta1" and a2: "perform release pm fop ta1 = Inr ta2"
    and a3: "performAll release pm wa ta2 = Inr ta'"
    by (auto simp: performAll_append split: sum.splits)
  from Cons.prems(10) ob obtain tb1 tb2 where
    b1: "performAll release pm ub tb = Inr tb1" and b2: "perform release pm fop tb1 = Inr tb2"
    and b3: "performAll release pm wb tb2 = Inr tb'"
    by (auto simp: performAll_append split: sum.splits)
  from Cons.prems(5) oa have vua: "\<forall>fop \<in> set ua. validRef ta (target fop)" by simp
  from Cons.prems(6) ob have vub: "\<forall>fop \<in> set ub. validRef tb (target fop)" by simp
  note sa = performAll_steps[OF Cons.prems(3) vua a1]
  note sb = performAll_steps[OF Cons.prems(4) vub b1]
  from sa have inva1: "\<forall>q. validRef ta1 q \<longrightarrow> validCache pm ta1 q"
    and vva1: "\<forall>q. validRef ta1 q = validRef ta q" by blast+
  from sb have invb1: "\<forall>q. validRef tb1 q \<longrightarrow> validCache pm tb1 q"
    and vvb1: "\<forall>q. validRef tb1 q = validRef tb q" by blast+
  from Cons.prems(5) oa vva1 have vfa: "validRef ta1 (target fop)" by simp
  from Cons.prems(6) ob vvb1 have vfb: "validRef tb1 (target fop)" by simp
  have ag1: "matrix (frameAt ta1 a) = matrix (frameAt tb1 a)" if s: "suffix a r" for a
  proof -
    from Cons.prems(7) s have v: "validRef ta a" by (rule validRef_suffix)
    from Cons.prems(8) s have v': "validRef tb a" by (rule validRef_suffix)
    have "\<forall>fop \<in> set ua. isQuery fop \<or> a \<noteq> target fop" using ua s by auto
    with sa v have 1: "matrix (frameAt ta1 a) = matrix (frameAt ta a)" by blast
    have "\<forall>fop \<in> set ub. isQuery fop \<or> a \<noteq> target fop" using ub s by auto
    with sb v' have 2: "matrix (frameAt tb1 a) = matrix (frameAt tb a)" by blast
    from 1 2 Cons.prems(11) s show ?thesis by simp
  qed
  note st_a = perform_step[OF inva1 vfa a2]
  note st_b = perform_step[OF invb1 vfb b2]
  have ag2: "\<forall>a. suffix a r \<longrightarrow> matrix (frameAt ta2 a) = matrix (frameAt tb2 a)"
  proof (intro allI impI)
    fix a assume s: "suffix a r"
    from Cons.prems(7) s vva1 have v: "validRef ta1 a" by (simp add: validRef_suffix)
    from Cons.prems(8) s vvb1 have v': "validRef tb1 a" by (simp add: validRef_suffix)
    show "matrix (frameAt ta2 a) = matrix (frameAt tb2 a)"
      by (rule perform_agree[OF inva1 invb1 vfa vfb a2 b2 v v' ag1[OF s]])
  qed
  from Cons.prems(5) oa vva1 st_a(1) have vwa: "\<forall>fop \<in> set wa. validRef ta2 (target fop)" by simp
  from Cons.prems(6) ob vvb1 st_b(1) have vwb: "\<forall>fop \<in> set wb. validRef tb2 (target fop)" by simp
  from Cons.prems(7) vva1 st_a(1) have ra: "validRef ta2 r" by simp
  from Cons.prems(8) vvb1 st_b(1) have rb: "validRef tb2 r" by simp
  show ?case
    by (rule Cons.IH[OF wa wb st_a(2) st_b(2) vwa vwb ra rb a3 b3 ag2])
qed

lemmas frame_evals = smallTree_def set_x_def set_y_def set_matrix_def outcome_def newFrame_def
  checkCapability_def invalidatePosition_def
  invalidateBounds_def invalidateParentPaint_def propagateFlagsDown_def updateFrameAt_def
  frameAt_def nodeAt_def subtreeAt_def validRef_def setFlags_def removeFlags_def hasFlags_def Let_def
  AllowAllWrite_def AllowMatrixWrite_def AllowColorMatrixWrite_def AllowBlendModeWrite_def
  AllowFiltersWrite_def AllowMaskWrite_def AllowChildrenWrite_def AllowClipWrite_def
  Visible_def InvalidPaint_def InvalidBounds_def InvalidConcatenatedMatrix_def
  InvalidInvertedConcatenatedMatrix_def InvalidConcatenatedColorMatrix_def createIdentity_def
  getConcatenatedMatrix_def getAncestors_def translationProduct_def
  cacheInvariant_def validCache_def allRefs_def

text \<open>
  C1. In a tree whose caches are in order (as they are in a tree of new frames, and after
  every setter and query), after any sequence of calls of the \<^verbatim>\<open>x\<close>, \<^verbatim>\<open>y\<close> and \<^verbatim>\<open>matrix\<close>
  setters and of \<^verbatim>\<open>getConcatenatedMatrix\<close> on frames of the tree, \<^verbatim>\<open>getConcatenatedMatrix\<close> of a
  frame \<open>r\<close> returns, without a fault, the composition of the local matrices from the root
  down to \<open>r\<close>. A second sequence that makes the same setter calls on \<open>r\<close> and its ancestors,
  whatever its queries and its setter calls on other frames are and wherever they stand,
  gives the same result.
\<close>

theorem getConcatenatedMatrix_composition:
  fixes t :: "'c FrameTree"
  assumes "cacheInvariant pm t" and "validRef t r"
    and "list_all (\<lambda>fop. validRef t (target fop)) ops"
    and "list_all (\<lambda>fop. validRef t (target fop)) ops'"
    and "filter (\<lambda>fop. \<not> isQuery fop \<and> suffix (target fop) r) ops'
           = filter (\<lambda>fop. \<not> isQuery fop \<and> suffix (target fop) r) ops"
    and "performAll release pm ops t = Inr u"
    and "performAll release pm ops' t = Inr u'"
  shows "map_sum id fst (getConcatenatedMatrix release pm r u) = Inr (concatenation pm u r)
       \<and> map_sum id fst (getConcatenatedMatrix release pm r u') = Inr (concatenation pm u r)"
proof -
  from assms(1) have inv: "\<forall>q. validRef t q \<longrightarrow> validCache pm t q"
    by (simp add: cacheInvariant_iff)
  from assms(3) have v: "\<forall>fop \<in> set ops. validRef t (target fop)" by (simp add: list_all_iff)
  from assms(4) have v': "\<forall>fop \<in> set ops'. validRef t (target fop)" by (simp add: list_all_iff)
  note s = performAll_steps[OF inv v assms(6)]
  note s' = performAll_steps[OF inv v' assms(7)]
  from s have iu: "\<And>q. validRef u q \<Longrightarrow> validCache pm u q" and ru: "validRef u r"
    using assms(2) by blast+
  from s' have iu': "\<And>q. validRef u' q \<Longrightarrow> validCache pm u' q" and ru': "validRef u' r"
    using assms(2) by blast+
  have "\<forall>a. suffix a r \<longrightarrow> matrix (frameAt u' a) = matrix (frameAt u a)"
    by (rule performAll_agree[OF assms(5) refl inv inv v' v assms(2) assms(2) assms(7) assms(6)])
      simp
  then have c: "concatenation pm u' r = concatenation pm u r"
    by (intro concatenation_cong) simp
  from getConcatenatedMatrix_result[of u pm r release, OF iu ru]
  have 1: "map_sum id fst (getConcatenatedMatrix release pm r u) = Inr (concatenation pm u r)"
    by auto
  from getConcatenatedMatrix_result[of u' pm r release, OF iu' ru'] c
  have 2: "map_sum id fst (getConcatenatedMatrix release pm r u') = Inr (concatenation pm u r)"
    by auto
  from 1 2 show ?thesis ..
qed

text \<open>
  In the container with two new frames, the calls \<open>x = 5\<close> on the first child, a query of the
  second child and \<open>y = 3\<close> on the second child, and the calls \<open>x = 7\<close> on the second child and
  \<open>x = 5\<close> on the first child, both leave the first child with the concatenated matrix that
  translates by \<open>(5, 0)\<close>.
\<close>

theorem getConcatenatedMatrix_composition_witness:
  "cacheInvariant translationProduct smallTree \<and> validRef smallTree [0]
   \<and> \<not> isl (performAll False translationProduct
               [SetX [0] 5, GetConcatenatedMatrix [1], SetY [1] 3] smallTree)
   \<and> \<not> isl (performAll False translationProduct [SetX [1] 7, SetX [0] 5] smallTree)
   \<and> map_sum id fst (getConcatenatedMatrix False translationProduct [0]
         (projr (performAll False translationProduct
                   [SetX [0] 5, GetConcatenatedMatrix [1], SetY [1] 3] smallTree)))
       = Inr \<lparr>m_a = 1, m_b = 0, m_c = 0, m_d = 1, m_tx = 5, m_ty = 0\<rparr>
   \<and> map_sum id fst (getConcatenatedMatrix False translationProduct [0]
         (projr (performAll False translationProduct [SetX [1] 7, SetX [0] 5] smallTree)))
       = Inr \<lparr>m_a = 1, m_b = 0, m_c = 0, m_d = 1, m_tx = 5, m_ty = 0\<rparr>"
proof -
  let ?ops = "[SetX [0] 5, GetConcatenatedMatrix [1], SetY [1] 3]"
  let ?ops' = "[SetX [1] 7, SetX [0] 5]"
  let ?u = "projr (performAll False translationProduct ?ops smallTree)"
  let ?u' = "projr (performAll False translationProduct ?ops' smallTree)"
  have i: "cacheInvariant translationProduct smallTree" by (simp add: frame_evals)
  have r: "validRef smallTree [0]" by (simp add: frame_evals)
  have v: "list_all (\<lambda>fop. validRef smallTree (target fop)) ?ops" by (simp add: frame_evals)
  have v': "list_all (\<lambda>fop. validRef smallTree (target fop)) ?ops'" by (simp add: frame_evals)
  have f: "filter (\<lambda>fop. \<not> isQuery fop \<and> suffix (target fop) [0]) ?ops'
           = filter (\<lambda>fop. \<not> isQuery fop \<and> suffix (target fop) [0]) ?ops"
    by (simp add: suffix_def)
  have l: "\<not> isl (performAll False translationProduct ?ops smallTree)"
    by (simp add: frame_evals)
  have l': "\<not> isl (performAll False translationProduct ?ops' smallTree)"
    by (simp add: frame_evals)
  from l have p: "performAll False translationProduct ?ops smallTree = Inr ?u" by simp
  from l' have p': "performAll False translationProduct ?ops' smallTree = Inr ?u'" by simp
  have c: "concatenation translationProduct ?u [0]
             = \<lparr>m_a = 1, m_b = 0, m_c = 0, m_d = 1, m_tx = 5, m_ty = 0\<rparr>"
    by (simp add: frame_evals)
  from getConcatenatedMatrix_composition[OF i r v v' f p p'] c i r l l'
  show ?thesis by simp
qed

text \<open>
  C2 (as amended). The invariant: on every frame whose \<^verbatim>\<open>InvalidConcatenatedMatrix\<close> flag is
  clear, the cached concatenated matrix is the composition of the local matrices from the
  root down to the frame, and the flag is clear on every strict ancestor. It holds of a new
  frame, and the \<^verbatim>\<open>x\<close>, \<^verbatim>\<open>y\<close> and \<^verbatim>\<open>matrix\<close> setters and \<^verbatim>\<open>getConcatenatedMatrix\<close> preserve it.
\<close>

theorem cacheInvariant_preserved:
  "cacheInvariant pm (PlainFrame (newFrame n b c))
   \<and> (cacheInvariant pm t \<and> validRef t (target fop) \<and> perform release pm fop t = Inr t'
        \<longrightarrow> cacheInvariant pm t')
   \<and> (cacheInvariant pm t \<and> validRef t r
        \<and> \<not> hasFlags (frameAt t r) InvalidConcatenatedMatrix
        \<longrightarrow> concatenatedMatrix (frameAt t r) = concatenation pm t r
            \<and> (\<forall>a. strict_suffix a r \<longrightarrow> \<not> hasFlags (frameAt t a) InvalidConcatenatedMatrix))"
proof (intro conjI impI)
  have "hasFlags (newFrame n b c) InvalidConcatenatedMatrix"
    by (simp add: newFrame_def hasFlags_def Visible_def InvalidPaint_def InvalidBounds_def
        InvalidConcatenatedMatrix_def InvalidInvertedConcatenatedMatrix_def
        InvalidConcatenatedColorMatrix_def)
  then show "cacheInvariant pm (PlainFrame (newFrame n b c))"
    by (simp add: cacheInvariant_def allRefs_def validCache_def)
next
  assume a: "cacheInvariant pm t \<and> validRef t (target fop) \<and> perform release pm fop t = Inr t'"
  then have inv: "\<forall>q. validRef t q \<longrightarrow> validCache pm t q" by (simp add: cacheInvariant_iff)
  from a perform_step(2)[OF inv, of fop release t'] show "cacheInvariant pm t'"
    by (simp add: cacheInvariant_iff)
next
  assume a: "cacheInvariant pm t \<and> validRef t r
        \<and> \<not> hasFlags (frameAt t r) InvalidConcatenatedMatrix"
  then have "validCache pm t r" by (simp add: cacheInvariant_iff)
  with a show "concatenatedMatrix (frameAt t r) = concatenation pm t r"
    by (simp add: validCache_iff)
next
  assume a: "cacheInvariant pm t \<and> validRef t r
        \<and> \<not> hasFlags (frameAt t r) InvalidConcatenatedMatrix"
  then have "validCache pm t r" by (simp add: cacheInvariant_iff)
  with a show "\<forall>a. strict_suffix a r \<longrightarrow> \<not> hasFlags (frameAt t a) InvalidConcatenatedMatrix"
    by (simp add: validCache_iff)
qed

text \<open>
  In the container with two new frames, a query of the first child leaves the invariant in
  place; the flag of the child is then clear, its cache is the composition, and the flag of
  the root is clear.
\<close>

theorem cacheInvariant_preserved_witness:
  "cacheInvariant translationProduct smallTree \<and> validRef smallTree [0]
   \<and> \<not> isl (perform False translationProduct (GetConcatenatedMatrix [0]) smallTree)
   \<and> cacheInvariant translationProduct
         (projr (perform False translationProduct (GetConcatenatedMatrix [0]) smallTree))
   \<and> \<not> hasFlags (frameAt (projr (perform False translationProduct (GetConcatenatedMatrix [0]) smallTree)) [0])
           InvalidConcatenatedMatrix
   \<and> concatenatedMatrix
         (frameAt (projr (perform False translationProduct (GetConcatenatedMatrix [0]) smallTree)) [0])
       = concatenation translationProduct
           (projr (perform False translationProduct (GetConcatenatedMatrix [0]) smallTree)) [0]
   \<and> \<not> hasFlags (frameAt (projr (perform False translationProduct (GetConcatenatedMatrix [0]) smallTree)) [])
           InvalidConcatenatedMatrix"
proof -
  let ?p = "perform False translationProduct (GetConcatenatedMatrix [0]) smallTree"
  have i: "cacheInvariant translationProduct smallTree" by (simp add: frame_evals)
  have r: "validRef smallTree [0]" by (simp add: frame_evals)
  have l: "\<not> isl ?p" by (simp add: frame_evals)
  then have p: "?p = Inr (projr ?p)" by simp
  have r': "validRef (projr ?p) [0]" by (simp add: frame_evals)
  have h: "\<not> hasFlags (frameAt (projr ?p) [0]) InvalidConcatenatedMatrix"
    by (simp add: frame_evals)
  have s: "strict_suffix [] [0 :: nat]" by (simp add: strict_suffix_def suffix_def)
  from r have rt: "validRef smallTree (target (GetConcatenatedMatrix [0]))" by simp
  have i': "cacheInvariant translationProduct (projr ?p)"
    by (rule cacheInvariant_preserved[THEN conjunct2, THEN conjunct1, THEN mp,
          OF conjI[OF i conjI[OF rt p]]])
  have "concatenatedMatrix (frameAt (projr ?p) [0]) = concatenation translationProduct (projr ?p) [0]
      \<and> (\<forall>a. strict_suffix a [0] \<longrightarrow> \<not> hasFlags (frameAt (projr ?p) a) InvalidConcatenatedMatrix)"
    by (rule cacheInvariant_preserved[THEN conjunct2, THEN conjunct2, THEN mp,
          OF conjI[OF i' conjI[OF r' h]]])
  then have c: "concatenatedMatrix (frameAt (projr ?p) [0]) = concatenation translationProduct (projr ?p) [0]"
    and a: "\<forall>a. strict_suffix a [0] \<longrightarrow> \<not> hasFlags (frameAt (projr ?p) a) InvalidConcatenatedMatrix"
    by blast+
  from a s have "\<not> hasFlags (frameAt (projr ?p) []) InvalidConcatenatedMatrix" by blast
  with i r l i' h c show ?thesis by blast
qed

text \<open>
  The invariant is no equivalence: a cache that holds the composition may have its flag set.
  On a new frame without parent, a query and then the call \<open>x = 0\<close>, which assigns the value
  the matrix has, leave the flag set on a cache that is the composition.
\<close>

theorem cacheInvariant_preserved_counterexample:
  "\<not> isl (performAll False translationProduct [GetConcatenatedMatrix [], SetX [] 0]
            (PlainFrame (newFrame 0 1 ())))
   \<and> hasFlags (frameAt (projr (performAll False translationProduct
                  [GetConcatenatedMatrix [], SetX [] 0] (PlainFrame (newFrame 0 1 ())))) [])
        InvalidConcatenatedMatrix
   \<and> concatenatedMatrix (frameAt (projr (performAll False translationProduct
                  [GetConcatenatedMatrix [], SetX [] 0] (PlainFrame (newFrame 0 1 ())))) [])
       = concatenation translationProduct
           (projr (performAll False translationProduct
                  [GetConcatenatedMatrix [], SetX [] 0] (PlainFrame (newFrame 0 1 ())))) []"
  by (simp add: frame_evals)

section \<open>Properties of the traversal\<close>

lemma or_and_zero: "(x OR y) AND z = 0 \<longleftrightarrow> x AND z = 0 \<and> y AND (z :: 32 word) = 0"
  by (simp add: word_ao_dist or_eq_0_iff)

lemmas tree_evals = frameAt_def nodeAt_def subtreeAt_def

lemmas new_flags = newFrame_def Empty_def IgnoreQuery_def EnterClip_def LeaveClip_def Visible_def
  InvalidPaint_def InvalidBounds_def InvalidConcatenatedMatrix_def
  InvalidInvertedConcatenatedMatrix_def InvalidConcatenatedColorMatrix_def

text \<open>
  C5. A container has two leaf frames as its children; the query point lies in the bounds of
  the container and of both children, and no frame has the flag \<^verbatim>\<open>IgnoreQuery\<close>. With
  \<^verbatim>\<open>multiple = false\<close>, \<^verbatim>\<open>queryFramesByPoint\<close> returns the one frame \<^verbatim>\<open>children[0]\<close>, which is
  painted first and lies at the back: the walk is back to front and stops at its first hit.
  With \<^verbatim>\<open>multiple = true\<close> it returns both, \<^verbatim>\<open>children[1]\<close>, the frame in front, first.
\<close>

theorem queryFramesByPoint_first_hit:
  assumes "flags fr AND IgnoreQuery = 0" and "flags a AND IgnoreQuery = 0"
    and "flags b AND IgnoreQuery = 0"
    and "containsQuery [] (Some createIdentity)"
    and "containsQuery [0] (Some (pm createIdentity (matrix a)))"
    and "containsQuery [1] (Some (pm createIdentity (matrix b)))"
  shows "queryFramesByPoint pm containsQuery False False
           (FrameContainer fr [PlainFrame a, PlainFrame b]) [] = Some [[0]]
       \<and> queryFramesByPoint pm containsQuery True False
           (FrameContainer fr [PlainFrame a, PlainFrame b]) [] = Some [[1], [0]]"
  using assms
  by (simp add: queryFramesByPoint_def visit_def visitLoop.simps queryVisitor_def
      pushChildren_def childTransform_def tree_evals Let_def Empty_def or_and_zero)

text \<open>The container with two new frames, for a point that lies in every frame.\<close>

theorem queryFramesByPoint_first_hit_witness:
  "flags (newFrame 0 1 ()) AND IgnoreQuery = 0
   \<and> queryFramesByPoint translationProduct (\<lambda>frame transform. True) False False smallTree []
       = Some [[0]]
   \<and> queryFramesByPoint translationProduct (\<lambda>frame transform. True) True False smallTree []
       = Some [[1], [0]]"
proof -
  have h: "flags (newFrame n 1 ()) AND IgnoreQuery = 0" for n
    by (simp add: new_flags)
  from queryFramesByPoint_first_hit[where pm = translationProduct
      and containsQuery = "\<lambda>frame transform. True", OF h h h] h[of 0]
  show ?thesis by (simp add: smallTree_def)
qed

lemma visit_clip:
  assumes "0 \<le> clip c" and "clip s < 0" and "clip s' < 0"
    and "gather [] 0 = []" and "gather [] 1 = []" and "gather [] 2 = [[0]]"
  shows "visit pm recordingVisitor transform fl frontToBack (Some gather)
           (FrameContainer fr [PlainFrame c, PlainFrame s, PlainFrame s']) [] []
         = Some [([], fl OR flags fr),
                 ([0], ((fl OR flags fr) OR EnterClip) OR flags c),
                 ([1], (fl OR flags fr) OR flags s),
                 ([2], (fl OR flags fr) OR flags s'),
                 ([0], LeaveClip OR flags c)]"
  using assms
  by (simp add: visit_def visitLoop.simps recordingVisitor_def pushClippedChildren_def
      childTransform_def tree_evals Let_def numeral_2_eq_2 numeral_3_eq_3)

text \<open>
  C6 (as amended). A container has three leaf frames as its children: a clip (its clip count
  is not negative) and two frames that are no clips, and \<^verbatim>\<open>gatherLeaveClipEvents\<close> gives the
  leave event of the clip at the index of the last child and no other event. A traversal
  with clips calls the visitor, which continues each time, on the container, on the clip
  with the flag \<^verbatim>\<open>EnterClip\<close> added to the accumulated flags, on the two siblings with the
  accumulated flags of the container and their own, and last on the clip again with the flag
  \<^verbatim>\<open>LeaveClip\<close> and its own flags.
\<close>

theorem visit_clip_sequence:
  assumes "0 \<le> clip c" and "clip s < 0" and "clip s' < 0"
    and "gather [] 0 = []" and "gather [] 1 = []" and "gather [] 2 = [[0]]"
  shows "visit pm recordingVisitor transform fl frontToBack (Some gather)
           (FrameContainer fr [PlainFrame c, PlainFrame s, PlainFrame s']) [] []
         = Some [([], fl OR flags fr),
                 ([0], ((fl OR flags fr) OR EnterClip) OR flags c),
                 ([1], (fl OR flags fr) OR flags s),
                 ([2], (fl OR flags fr) OR flags s'),
                 ([0], LeaveClip OR flags c)]"
  using assms by (rule visit_clip)

text \<open>The container of three new frames whose first child has the clip count 2.\<close>

theorem visit_clip_sequence_witness:
  "clip (frameAt clipTree [0]) = 2 \<and> clip (frameAt clipTree [1]) < 0
   \<and> clip (frameAt clipTree [2]) < 0
   \<and> visit translationProduct recordingVisitor None Empty False
         (Some (\<lambda>frame i. if frame = [] \<and> i = 2 then [[0]] else [])) clipTree [] []
       = Some [([], flags (newFrame 0 1 ())),
               ([0], flags (newFrame 0 1 ()) OR EnterClip),
               ([1], flags (newFrame 0 1 ())),
               ([2], flags (newFrame 0 1 ())),
               ([0], flags (newFrame 0 1 ()) OR LeaveClip)]"
proof -
  let ?gather = "\<lambda>(frame :: FrameRef) (i :: nat). if frame = [] \<and> i = 2 then [[0 :: nat]] else []"
  have c: "0 \<le> clip ((newFrame 1 1 ())\<lparr>clip := 2\<rparr>)" by simp
  have s: "clip (newFrame n 1 ()) < 0" for n by (simp add: newFrame_def)
  have g: "?gather [] 0 = []" "?gather [] 1 = []" "?gather [] 2 = [[0]]" by simp_all
  have f: "clip (frameAt clipTree [0]) = 2 \<and> clip (frameAt clipTree [1]) < 0
           \<and> clip (frameAt clipTree [2]) < 0"
    by (simp add: clipTree_def tree_evals newFrame_def)
  from visit_clip_sequence[where gather = ?gather and pm = translationProduct
      and transform = None and fl = Empty and frontToBack = False, OF c s s g]
  have "visit translationProduct recordingVisitor None Empty False (Some ?gather) clipTree [] []
       = Some [([], flags (newFrame 0 1 ())),
               ([0], flags (newFrame 0 1 ()) OR EnterClip),
               ([1], flags (newFrame 0 1 ())),
               ([2], flags (newFrame 0 1 ())),
               ([0], flags (newFrame 0 1 ()) OR LeaveClip)]"
    by (simp add: clipTree_def new_flags)
  with f show ?thesis by blast
qed

text \<open>
  In that traversal the flags that the visitor receives for the two siblings have no
  \<^verbatim>\<open>EnterClip\<close>: of each call, the frame, whether the flags have \<^verbatim>\<open>EnterClip\<close> and whether they
  have \<^verbatim>\<open>LeaveClip\<close>.
\<close>

theorem visit_clip_sequence_counterexample:
  "map_option (map (\<lambda>(frame, fl). (frame, fl AND EnterClip \<noteq> 0, fl AND LeaveClip \<noteq> 0)))
     (visit translationProduct recordingVisitor None Empty False
        (Some (\<lambda>frame i. if frame = [] \<and> i = 2 then [[0]] else [])) clipTree [] [])
   = Some [([], False, False), ([0], True, False), ([1], False, False), ([2], False, False),
           ([0], False, True)]"
proof -
  let ?gather = "\<lambda>(frame :: FrameRef) (i :: nat). if frame = [] \<and> i = 2 then [[0 :: nat]] else []"
  have c: "0 \<le> clip ((newFrame 1 1 ())\<lparr>clip := 2\<rparr>)" by simp
  have s: "clip (newFrame n 1 ()) < 0" for n by (simp add: newFrame_def)
  have g: "?gather [] 0 = []" "?gather [] 1 = []" "?gather [] 2 = [[0]]" by simp_all
  from visit_clip[where gather = ?gather and pm = translationProduct
      and transform = None and fl = Empty and frontToBack = False, OF c s s g]
  show ?thesis by (simp add: clipTree_def new_flags)
qed

end
